theory Spec2Isabelle
  imports Complex_Main
begin

section \<open>Values of the word-list tables\<close>

text \<open>
  A Python string is a sequence of Unicode code points, and \<open>tokenize\<close> scans it one
  code point at a time; several of the symbols it looks for lie outside ASCII. A symbol is
  therefore a code point (a natural number) and a string a list of symbols. \<open>ustr\<close>
  turns an ASCII literal into such a string.
\<close>

type_synonym symbol = nat
type_synonym pystr = "symbol list"

definition ustr :: "string \<Rightarrow> pystr" where
  "ustr s = map of_char s"

datatype error = IndexError | ValueError | AttributeError

section \<open>The segmenter: \<open>tokenize\<close>\<close>

text \<open>
  The default argument \<open>substitutions\<close> of \<open>tokenize\<close>, key and value written as code
  points: a-diaeresis to a, Greek epsilon to open e, e-acute to e, a-acute to a, i-acute to i,
  capital glottal stop to glottal stop, the IPA stress mark to the apostrophe, the colon to
  the IPA length mark, script g to g.
\<close>

definition substitutions :: "symbol \<rightharpoonup> symbol" where
  "substitutions = map_of
     [(0xE4, 0x61), (0x3B5, 0x25B), (0xE9, 0x65), (0xE1, 0x61), (0xED, 0x69),
      (0x241, 0x294), (0x2C8, 0x27), (0x3A, 0x2D0), (0x261, 0x67)]"

text \<open>\<open>if symbol in substitutions: symbol = substitutions[symbol]\<close>\<close>

definition substitute :: "symbol \<Rightarrow> symbol" where
  "substitute symbol = (case substitutions symbol of Some s \<Rightarrow> s | None \<Rightarrow> symbol)"

text \<open>\<open>if segment: yield segment\<close>\<close>

definition flush :: "pystr \<Rightarrow> pystr list" where
  "flush segment = (if segment \<noteq> [] then [segment] else [])"

text \<open>
  One pass through the body of the loop \<open>for symbol in form\<close>. The state is the pair
  (\<open>segment\<close>, \<open>stress\<close>); the result is the list of segments yielded by this pass and
  the new state. The glyph lists \<open>consonants\<close> and \<open>vowels\<close> come from the CLPA data of the
  library pyclpa and are parameters here; a glyph is a string, and \<open>symbol in consonants\<close>
  asks whether the one-symbol string is in the list.
\<close>

definition step ::
  "pystr list \<Rightarrow> pystr list \<Rightarrow> pystr \<times> bool \<Rightarrow> symbol \<Rightarrow> pystr list \<times> (pystr \<times> bool)" where
  "step consonants vowels st symbol0 =
     (let segment = fst st; stress = snd st; symbol = substitute symbol0 in
      if symbol = 0x27 then (flush segment, ([], True))
      else if symbol = 0x5F \<or> symbol = 0x2D then (flush segment @ [[symbol]], ([], stress))
      else if symbol = 0x2E then (flush segment, ([], stress))
      else if [symbol] \<in> set consonants then (flush segment, ([symbol], False))
      else if [symbol] \<in> set vowels then
        (flush segment, (if stress then [0x27, symbol] else [symbol], stress))
      else ([], (segment @ [symbol], stress)))"

text \<open>The whole loop: the segments yielded while scanning, and the state it ends in.\<close>

fun scan_loop ::
  "pystr list \<Rightarrow> pystr list \<Rightarrow> pystr \<Rightarrow> pystr \<times> bool \<Rightarrow> pystr list \<times> (pystr \<times> bool)" where
  "scan_loop consonants vowels [] st = ([], st)"
| "scan_loop consonants vowels (symbol # form) st =
     (case step consonants vowels st symbol of (out, st') \<Rightarrow>
        (case scan_loop consonants vowels form st' of (out', st'') \<Rightarrow> (out @ out', st'')))"

text \<open>
  \<open>tokenize\<close>, read to its end (every caller joins or lists the generator). \<open>form[0]\<close>
  raises IndexError on the empty string; a leading asterisk is dropped; after the loop the
  buffer \<open>segment\<close> is yielded whatever it holds.
\<close>

definition tokenize :: "pystr list \<Rightarrow> pystr list \<Rightarrow> pystr \<Rightarrow> error + pystr list" where
  "tokenize consonants vowels form =
     (case form of
        [] \<Rightarrow> Inl IndexError
      | c # rest \<Rightarrow>
          (case scan_loop consonants vowels (if c = 0x2A then rest else form) ([], False) of
             (out, (segment, stress)) \<Rightarrow> Inr (out @ [segment])))"

section \<open>Cells of a table\<close>

text \<open>
  A cell of a table read by pandas is a string, a number or the missing value NaN (an empty
  field, since the tables are read with \<open>na_values=[""]\<close>). A number is held by its
  value, whether the column is of integers or of floats; infinities are left out, and the
  float -0.0 is not told apart from 0.0.
\<close>

datatype cell = Str pystr | Num rat | NaN

text \<open>\<open>pandas.isnull(x)\<close>\<close>

definition isnull :: "cell \<Rightarrow> bool" where
  "isnull x = (x = NaN)"

text \<open>\<open>not x\<close>: the empty string and the number zero are false, NaN is true.\<close>

definition py_not :: "cell \<Rightarrow> bool" where
  "py_not x = (case x of Str s \<Rightarrow> s = [] | Num q \<Rightarrow> q = 0 | NaN \<Rightarrow> False)"

text \<open>
  \<open>a == b\<close> on cells, as Python and the column comparisons of pandas have it: numbers
  are equal by value, NaN equals nothing, itself included. \<open>a != b\<close> is its negation.
\<close>

definition cell_eq :: "cell \<Rightarrow> cell \<Rightarrow> bool" where
  "cell_eq a b = (a \<noteq> NaN \<and> b \<noteq> NaN \<and> a = b)"

definition cell_ne :: "cell \<Rightarrow> cell \<Rightarrow> bool" where
  "cell_ne a b = (\<not> cell_eq a b)"

text \<open>
  \<open>x is y or x == y\<close>, the comparison that \<open>in\<close> and \<open>index\<close> make between the
  elements of lists and tuples. It differs from \<open>==\<close> for two missing values only, which
  are the same when they are one object. The cells of a numeric column become new floats
  each time the column is iterated, so two missing values of such a column are never the
  same; for a column that pandas holds as objects it is a matter of the objects that the
  reader of the table put there. \<open>shared\<close> says whether the missing values of the column
  are one object.
\<close>

definition py_same :: "bool \<Rightarrow> cell \<Rightarrow> cell \<Rightarrow> bool" where
  "py_same shared a b = ((shared \<and> a = NaN \<and> b = NaN) \<or> cell_eq a b)"

text \<open>
  \<open>str(x)\<close>. How Python prints a number depends on the type of its column (\<open>7\<close> in a
  column of integers, \<open>7.0\<close> in a column of floats, which a numeric column with a missing
  value is) and, for a float, on the shortest decimal that reads back as the same float.
  The printing of the numbers of the column is the parameter \<open>num_str\<close>.
\<close>

definition py_str :: "(rat \<Rightarrow> pystr) \<Rightarrow> cell \<Rightarrow> pystr" where
  "py_str num_str x = (case x of Str s \<Rightarrow> s | Num q \<Rightarrow> num_str q | NaN \<Rightarrow> ustr ''nan'')"

text \<open>
  Two printings for the examples. In a column of integers every value is an integer and
  prints as its sign and decimal digits. In a column of floats a value that is an integer
  of magnitude below \<open>10^16\<close> prints as that integer followed by \<open>.0\<close>.
\<close>

fun digits :: "nat \<Rightarrow> pystr" where
  "digits n = (if n < 10 then [0x30 + n] else digits (n div 10) @ [0x30 + n mod 10])"

declare digits.simps [simp del]

definition int_column_str :: "rat \<Rightarrow> pystr" where
  "int_column_str q =
     (if \<lfloor>q\<rfloor> < 0 then 0x2D # digits (nat (- \<lfloor>q\<rfloor>)) else digits (nat \<lfloor>q\<rfloor>))"

definition float_column_str :: "rat \<Rightarrow> pystr" where
  "float_column_str q = int_column_str q @ ustr ''.0''"

text \<open>\<open>x in xs\<close> for a cell and a list of strings (the reset directives).\<close>

definition cell_in :: "cell \<Rightarrow> pystr list \<Rightarrow> bool" where
  "cell_in x xs = (case x of Str s \<Rightarrow> s \<in> set xs | Num q \<Rightarrow> False | NaN \<Rightarrow> False)"

text \<open>A list comprehension whose body may raise: the first error ends it.\<close>

fun mapM :: "('a \<Rightarrow> error + 'b) \<Rightarrow> 'a list \<Rightarrow> error + 'b list" where
  "mapM f [] = Inr []"
| "mapM f (x # xs) =
     (case f x of
        Inl e \<Rightarrow> Inl e
      | Inr y \<Rightarrow> (case mapM f xs of Inl e \<Rightarrow> Inl e | Inr ys \<Rightarrow> Inr (y # ys)))"

text \<open>
  \<open>xs.index(x)\<close>: the first position whose element is the same as \<open>x\<close>, ValueError when
  there is none. \<open>same\<close> is the comparison of the elements.
\<close>

fun py_index :: "('a \<Rightarrow> 'a \<Rightarrow> bool) \<Rightarrow> 'a list \<Rightarrow> 'a \<Rightarrow> error + nat" where
  "py_index same [] x = Inl ValueError"
| "py_index same (y # ys) x =
     (if same y x then Inr 0
      else (case py_index same ys x of Inl e \<Rightarrow> Inl e | Inr n \<Rightarrow> Inr (Suc n)))"

text \<open>\<open>xs.iloc[0]\<close>: the first row of a selection, IndexError when it is empty.\<close>

definition iloc0 :: "'a list \<Rightarrow> error + 'a" where
  "iloc0 xs = (case xs of [] \<Rightarrow> Inl IndexError | x # _ \<Rightarrow> Inr x)"

section \<open>Strings: \<open>replace\<close>, \<open>split\<close>, \<open>join\<close>\<close>

text \<open>\<open>s.replace(a, b)\<close> for one-symbol strings \<open>a\<close> and \<open>b\<close>.\<close>

definition replace :: "symbol \<Rightarrow> symbol \<Rightarrow> pystr \<Rightarrow> pystr" where
  "replace a b s = map (\<lambda>c. if c = a then b else c) s"

text \<open>
  The symbols that \<open>str.split()\<close> without argument treats as separators (Python's
  whitespace): U+0009 to U+000D, U+001C to U+0020, U+0085, U+00A0, U+1680, U+2000 to
  U+200A, U+2028, U+2029, U+202F, U+205F, U+3000.
\<close>

definition isspace :: "symbol \<Rightarrow> bool" where
  "isspace c =
     ((0x09 \<le> c \<and> c \<le> 0x0D) \<or> (0x1C \<le> c \<and> c \<le> 0x20) \<or> c = 0x85 \<or> c = 0xA0 \<or>
      c = 0x1680 \<or> (0x2000 \<le> c \<and> c \<le> 0x200A) \<or> c = 0x2028 \<or> c = 0x2029 \<or>
      c = 0x202F \<or> c = 0x205F \<or> c = 0x3000)"

text \<open>
  \<open>s.split()\<close>: the maximal runs of symbols that are not whitespace. The first argument
  is the run being read.
\<close>

fun split_aux :: "pystr \<Rightarrow> pystr \<Rightarrow> pystr list" where
  "split_aux w [] = flush w"
| "split_aux w (c # cs) =
     (if isspace c then flush w @ split_aux [] cs else split_aux (w @ [c]) cs)"

definition split :: "pystr \<Rightarrow> pystr list" where
  "split s = split_aux [] s"

text \<open>\<open>" ".join(ts)\<close>\<close>

fun join :: "pystr list \<Rightarrow> pystr" where
  "join [] = []"
| "join [t] = t"
| "join (t # ts) = t @ [0x20] @ join ts"

section \<open>The alignment synthesizer: \<open>alignment\<close>\<close>

text \<open>\<open>str(form).replace("\n", ";").replace(" ", "_")\<close>\<close>

definition normalize_form :: "(rat \<Rightarrow> pystr) \<Rightarrow> cell \<Rightarrow> pystr" where
  "normalize_form num_str form = replace 0x20 0x5F (replace 0x0A 0x3B (py_str num_str form))"

text \<open>
  The body of the loop of \<open>alignment\<close> for one pair of an IPA cell and an ALIGNMENT cell.
  \<open>alignment.replace\<close> exists for strings only.
\<close>

definition alignment_row ::
  "(rat \<Rightarrow> pystr) \<Rightarrow> pystr list \<Rightarrow> pystr list \<Rightarrow> cell \<Rightarrow> cell \<Rightarrow> error + pystr" where
  "alignment_row num_str consonants vowels form0 alignment0 =
     (let form = normalize_form num_str form0 in
      case alignment0 of
        NaN \<Rightarrow> Inl AttributeError
      | Num q \<Rightarrow> Inl AttributeError
      | Str a \<Rightarrow>
          (let alignment = replace 0x0A 0x3B a in
           if alignment = [] \<or> alignment = ustr ''nan'' then
             (case tokenize consonants vowels form of
                Inl e \<Rightarrow> Inl e
              | Inr ts \<Rightarrow> Inr (join ts))
           else
             (case tokenize consonants vowels form of
                Inl e \<Rightarrow> Inl e
              | Inr ts \<Rightarrow>
                  if ts \<noteq> [x \<leftarrow> split alignment. x \<noteq> [0x2D]] then Inr (join ts)
                  else Inr alignment)))"

text \<open>The generator \<open>alignment\<close>, read to its end: one string for each row.\<close>

definition alignment ::
  "(rat \<Rightarrow> pystr) \<Rightarrow> pystr list \<Rightarrow> pystr list \<Rightarrow> (cell \<times> cell) list \<Rightarrow>
   error + pystr list" where
  "alignment num_str consonants vowels data =
     mapM (\<lambda>(form, al). alignment_row num_str consonants vowels form al) data"

section \<open>Stage 0: renumbering the cognate sets\<close>

text \<open>
  \<open>"" if (i=='nan' or pandas.isnull(i) or not i) else list(set(data["COGNATE_SET"])).index(i) + 1\<close>
  for each \<open>i\<close> of the column. The expression \<open>list(set(data["COGNATE_SET"]))\<close> is
  evaluated anew for every row, and the order in which it enumerates the column's values
  is not fixed by the language (it follows the hashes, and a missing value of a numeric
  column is a new object with a hash of its own at every evaluation). The enumerations are
  the parameter \<open>orders\<close>, one for each row of the column. \<open>index\<close> is reached with a
  label that is not missing, which is the same as an element exactly when it equals it.
\<close>

definition label_absent :: "cell \<Rightarrow> bool" where
  "label_absent i = (i = Str (ustr ''nan'') \<or> isnull i \<or> py_not i)"

definition renumber_COGNATE_SET :: "cell list list \<Rightarrow> cell list \<Rightarrow> error + cell list" where
  "renumber_COGNATE_SET orders col =
     mapM (\<lambda>(order, i).
             if label_absent i then Inr (Str [])
             else (case py_index cell_eq order i of
                     Inl e \<Rightarrow> Inl e
                   | Inr n \<Rightarrow> Inr (Num (of_nat n + 1))))
          (zip orders col)"

section \<open>Stage 2: the cognate resolver\<close>

record cognate_row =
  DOCULECT :: cell
  DOCULECT_ID :: cell
  CONCEPT :: cell
  IPA :: cell
  COGNATE_SET :: cell
  AUTO_COGID :: cell

text \<open>
  Both tables are sorted by DOCULECT_ID before the loop (\<open>sort_values\<close>, missing values
  last); the loop below runs on the tables as the sorting left them. The order of strings
  is that of their code points, position by position.
\<close>

fun str_le :: "pystr \<Rightarrow> pystr \<Rightarrow> bool" where
  "str_le [] t = True"
| "str_le (x # s) [] = False"
| "str_le (x # s) (y # t) = (x < y \<or> (x = y \<and> str_le s t))"

definition cell_le :: "cell \<Rightarrow> cell \<Rightarrow> bool" where
  "cell_le a b =
     (case b of
        NaN \<Rightarrow> True
      | Str t \<Rightarrow> (case a of Str s \<Rightarrow> str_le s t | Num p \<Rightarrow> False | NaN \<Rightarrow> False)
      | Num q \<Rightarrow> (case a of Str s \<Rightarrow> False | Num p \<Rightarrow> p \<le> q | NaN \<Rightarrow> False))"

definition sorted_by_DOCULECT_ID :: "cognate_row list \<Rightarrow> bool" where
  "sorted_by_DOCULECT_ID rows = sorted_wrt cell_le (map DOCULECT_ID rows)"

text \<open>
  The flag \<open>reset\<close> of a row; \<open>args_reset\<close> is the list of reset directives and
  \<open>num_str\<close> the printing of the numbers of the column COGNATE_SET.
\<close>

definition reset_row :: "(rat \<Rightarrow> pystr) \<Rightarrow> pystr list \<Rightarrow> cognate_row \<Rightarrow> bool" where
  "reset_row num_str args_reset row =
     (let cognateset = COGNATE_SET row in
      (cognateset = Str (ustr ''nan'') \<or> py_not cognateset \<or> isnull cognateset) \<or>
      py_str num_str (COGNATE_SET row) \<in> set args_reset \<or>
      cell_in (DOCULECT_ID row) args_reset \<or>
      cell_in (CONCEPT row) args_reset)"

text \<open>The rows of \<open>cognates\<close> whose COGNATE_SET equals \<open>cogid\<close>.\<close>

definition with_COGNATE_SET :: "cognate_row list \<Rightarrow> cell \<Rightarrow> cognate_row list" where
  "with_COGNATE_SET cognates cogid = [r \<leftarrow> cognates. cell_eq (COGNATE_SET r) cogid]"

text \<open>
  The selection \<open>representatives\<close> for a row. For a reset row the automatic table is
  searched for its DOCULECT, IPA and CONCEPT; \<open>iloc[0]\<close> of an empty result raises
  IndexError, which the handler turns into the selection by the row's own COGNATE_SET.
\<close>

definition representatives ::
  "(rat \<Rightarrow> pystr) \<Rightarrow> pystr list \<Rightarrow> cognate_row list \<Rightarrow> cognate_row list \<Rightarrow> cognate_row \<Rightarrow>
   cognate_row list" where
  "representatives num_str args_reset cognates autocognates row =
     (if reset_row num_str args_reset row then
        (case iloc0 [r \<leftarrow> autocognates.
                       cell_eq (DOCULECT r) (DOCULECT row) \<and>
                       cell_eq (IPA r) (IPA row) \<and>
                       cell_eq (CONCEPT r) (CONCEPT row)] of
           Inr m \<Rightarrow> [r \<leftarrow> autocognates. cell_eq (AUTO_COGID r) (AUTO_COGID m)]
         | Inl e \<Rightarrow> with_COGNATE_SET cognates (COGNATE_SET row))
      else with_COGNATE_SET cognates (COGNATE_SET row))"

text \<open>\<open>representatives.iloc[0]\<close>, and the row itself when that raises IndexError.\<close>

definition representative ::
  "(rat \<Rightarrow> pystr) \<Rightarrow> pystr list \<Rightarrow> cognate_row list \<Rightarrow> cognate_row list \<Rightarrow> cognate_row \<Rightarrow>
   cognate_row" where
  "representative num_str args_reset cognates autocognates row =
     (case iloc0 (representatives num_str args_reset cognates autocognates row) of
        Inr r \<Rightarrow> r
      | Inl e \<Rightarrow> row)"

type_synonym triple = "cell \<times> cell \<times> cell"

definition triple_of :: "cognate_row \<Rightarrow> triple" where
  "triple_of r = (DOCULECT_ID r, CONCEPT r, IPA r)"

text \<open>
  What the loop prints: the grouping of a reset row with the printed columns
  (DOCULECT_ID, CONCEPT, IPA, COGNATE_SET) of its selection, and the message for a row
  whose selection is empty.
\<close>

datatype notice =
  Grouping triple "(cell \<times> cell \<times> cell \<times> cell) list"
| Ungrounded triple

definition printed_columns :: "cognate_row \<Rightarrow> cell \<times> cell \<times> cell \<times> cell" where
  "printed_columns r = (DOCULECT_ID r, CONCEPT r, IPA r, COGNATE_SET r)"

text \<open>
  The state of the resolver's loop: the column LONG_COGID (None before a row is reached),
  the set \<open>pairs\<close> (a set of pairs of values) and the printed messages in order.
\<close>

record resolver_state =
  LONG_COGID_column :: "triple option list"
  pairs :: "(cell \<times> cell) set"
  printed :: "notice list"

text \<open>One pass of the loop, for the row at position \<open>i\<close>.\<close>

definition resolve_step ::
  "(rat \<Rightarrow> pystr) \<Rightarrow> pystr list \<Rightarrow> cognate_row list \<Rightarrow> cognate_row list \<Rightarrow>
   nat \<times> cognate_row \<Rightarrow> resolver_state \<Rightarrow> resolver_state" where
  "resolve_step num_str args_reset cognates autocognates ir st =
     (let i = fst ir; row = snd ir;
          reps = representatives num_str args_reset cognates autocognates row;
          out1 = (if reset_row num_str args_reset row
                  then [Grouping (triple_of row) (map printed_columns reps)] else []);
          out2 = (case iloc0 reps of Inr r \<Rightarrow> [] | Inl e \<Rightarrow> [Ungrounded (triple_of row)]);
          rep = representative num_str args_reset cognates autocognates row
      in \<lparr> LONG_COGID_column = (LONG_COGID_column st)[i := Some (triple_of rep)],
           pairs = (if cell_ne (CONCEPT row) (CONCEPT rep)
                    then insert (CONCEPT row, CONCEPT rep) (pairs st) else pairs st),
           printed = printed st @ out1 @ out2 \<rparr>)"

text \<open>
  The loop over \<open>list(cognates.iterrows())\<close>, started with LONG_COGID None in every row
  and no pairs.
\<close>

definition resolve ::
  "(rat \<Rightarrow> pystr) \<Rightarrow> pystr list \<Rightarrow> cognate_row list \<Rightarrow> cognate_row list \<Rightarrow>
   resolver_state" where
  "resolve num_str args_reset cognates autocognates =
     fold (resolve_step num_str args_reset cognates autocognates)
          (zip [0..<length cognates] cognates)
          \<lparr> LONG_COGID_column = replicate (length cognates) None, pairs = {}, printed = [] \<rparr>"

section \<open>Stage 3: compact cognate IDs\<close>

text \<open>
  The loop filling \<open>COG_IDs\<close>: \<open>if i not in COG_IDs: COG_IDs.append(i)\<close> for each key;
  \<open>same\<close> is the comparison of two keys.
\<close>

fun first_seen :: "('k \<Rightarrow> 'k \<Rightarrow> bool) \<Rightarrow> 'k list \<Rightarrow> 'k list \<Rightarrow> 'k list" where
  "first_seen same [] COG_IDs = COG_IDs"
| "first_seen same (i # keys) COG_IDs =
     first_seen same keys (if \<not> (\<exists>k \<in> set COG_IDs. same k i) then COG_IDs @ [i] else COG_IDs)"

text \<open>The column COGID: \<open>COG_IDs.index(x) + 1\<close> for each key.\<close>

definition assign_COGID :: "('k \<Rightarrow> 'k \<Rightarrow> bool) \<Rightarrow> 'k list \<Rightarrow> error + nat list" where
  "assign_COGID same keys =
     (let COG_IDs = first_seen same keys [] in
      mapM (\<lambda>x. case py_index same COG_IDs x of Inl e \<Rightarrow> Inl e | Inr n \<Rightarrow> Inr (n + 1)) keys)"

record merged_row =
  LONG_COGID :: cell
  CONCEPT_ID :: cell

text \<open>
  Both modes: with \<open>--within-meaning\<close> the key is the tuple of LONG_COGID and CONCEPT_ID,
  compared component by component, without it LONG_COGID alone. Each pass over the table
  reads the cells anew. \<open>long_shared\<close> and \<open>concept_shared\<close> say, for each of the two
  columns, whether its missing values are one object; for a numeric column they are not.
\<close>

definition COGID_column :: "bool \<Rightarrow> bool \<Rightarrow> bool \<Rightarrow> merged_row list \<Rightarrow> error + nat list" where
  "COGID_column long_shared concept_shared within_meaning cognates =
     (if within_meaning
      then assign_COGID
             (\<lambda>k i. py_same long_shared (fst k) (fst i) \<and> py_same concept_shared (snd k) (snd i))
             (map (\<lambda>r. (LONG_COGID r, CONCEPT_ID r)) cognates)
      else assign_COGID (py_same long_shared) (map LONG_COGID cognates))"

section \<open>Stage 5: the alignment validator\<close>

text \<open>
  A row of the aligned table. COGID is the integer of stage 3, None when the cell is
  missing (\<open>groupby\<close> puts such a row in no group). AUTO_ALIGNMENT is None when the row has
  no such column, which is what \<open>get\<close> asks.
\<close>

record aligned_row =
  COGID :: "int option"
  ALIGNMENT :: cell
  AUTO_ALIGNMENT :: "cell option"

text \<open>\<open>None if pandas.isnull(x) else len(x.split())\<close>; a number has no \<open>split\<close>.\<close>

definition token_count :: "cell \<Rightarrow> error + nat option" where
  "token_count x =
     (case x of
        NaN \<Rightarrow> Inr None
      | Str s \<Rightarrow> Inr (Some (length (split s)))
      | Num i \<Rightarrow> Inl AttributeError)"

text \<open>\<open>alignments.loc[i].get('AUTO_ALIGNMENT', '-')\<close>\<close>

definition fallback :: "aligned_row \<Rightarrow> cell" where
  "fallback r = (case AUTO_ALIGNMENT r of Some x \<Rightarrow> x | None \<Rightarrow> Str [0x2D])"

text \<open>The positions of the rows of one group.\<close>

definition group_index :: "aligned_row list \<Rightarrow> int \<Rightarrow> nat list" where
  "group_index rows cogid = [i \<leftarrow> [0..<length rows]. COGID (rows ! i) = Some cogid]"

text \<open>
  The body of the loop over the groups, on the current column ALIGNMENT. The length of the
  set \<open>is_aligned\<close> is the number of distinct counts.
\<close>

definition validate_group :: "aligned_row list \<Rightarrow> int \<Rightarrow> cell list \<Rightarrow> error + cell list" where
  "validate_group rows cogid col =
     (case mapM (\<lambda>i. token_count (col ! i)) (group_index rows cogid) of
        Inl e \<Rightarrow> Inl e
      | Inr is_aligned \<Rightarrow>
          if length (remdups is_aligned) \<noteq> 1
          then Inr (fold (\<lambda>i c. c[i := fallback (rows ! i)]) (group_index rows cogid) col)
          else Inr col)"

fun validate_loop :: "aligned_row list \<Rightarrow> int list \<Rightarrow> cell list \<Rightarrow> error + cell list" where
  "validate_loop rows [] col = Inr col"
| "validate_loop rows (cogid # cogids) col =
     (case validate_group rows cogid col of
        Inl e \<Rightarrow> Inl e
      | Inr col' \<Rightarrow> validate_loop rows cogids col')"

text \<open>
  The loop over \<open>alignments.groupby("COGID")\<close>: one group for each COGID present, in
  increasing order; the result is the final column ALIGNMENT.
\<close>

definition validate :: "aligned_row list \<Rightarrow> error + cell list" where
  "validate rows =
     validate_loop rows (sort (remdups (List.map_filter COGID rows))) (map ALIGNMENT rows)"

section \<open>Vocabulary of the claims\<close>

text \<open>
  A symbol that the loop of \<open>tokenize\<close> treats as a vowel: after substitution it is none
  of the markers, not a consonant glyph, and a vowel glyph.
\<close>

definition vowel_symbol :: "pystr list \<Rightarrow> pystr list \<Rightarrow> symbol \<Rightarrow> bool" where
  "vowel_symbol consonants vowels symbol0 =
     (let symbol = substitute symbol0 in
      symbol \<noteq> 0x27 \<and> symbol \<noteq> 0x5F \<and> symbol \<noteq> 0x2D \<and> symbol \<noteq> 0x2E \<and>
      [symbol] \<notin> set consonants \<and> [symbol] \<in> set vowels)"

text \<open>
  A symbol that the loop treats as a consonant, and the pending-stress flag after one
  symbol in the words of the amended claim: a stress marker sets it, a consonant clears
  it, and no other symbol changes it.
\<close>

definition consonant_symbol :: "pystr list \<Rightarrow> pystr list \<Rightarrow> symbol \<Rightarrow> bool" where
  "consonant_symbol consonants vowels symbol0 =
     (let symbol = substitute symbol0 in
      symbol \<noteq> 0x27 \<and> symbol \<noteq> 0x5F \<and> symbol \<noteq> 0x2D \<and> symbol \<noteq> 0x2E \<and>
      [symbol] \<in> set consonants)"

definition stress_after_symbol :: "pystr list \<Rightarrow> pystr list \<Rightarrow> symbol \<Rightarrow> bool \<Rightarrow> bool" where
  "stress_after_symbol consonants vowels symbol0 stress =
     (if substitute symbol0 = 0x27 then True
      else if consonant_symbol consonants vowels symbol0 then False
      else stress)"

text \<open>
  The normalization of a transcription in the words of the claim, symbol by symbol: a
  newline becomes \<open>;\<close>, a space becomes \<open>_\<close>, every other symbol is kept. For an
  alignment only the newline is replaced.
\<close>

definition normalized_symbol :: "symbol \<Rightarrow> symbol" where
  "normalized_symbol c = (if c = 0x0A then 0x3B else if c = 0x20 then 0x5F else c)"

definition normalized_alignment_symbol :: "symbol \<Rightarrow> symbol" where
  "normalized_alignment_symbol c = (if c = 0x0A then 0x3B else c)"

text \<open>
  Tokens that survive \<open>" ".join\<close> followed by \<open>split()\<close> and the removal of gaps:
  none is empty, none is the gap symbol, none contains whitespace.
\<close>

definition clean_tokens :: "pystr list \<Rightarrow> bool" where
  "clean_tokens ts = (\<forall>t \<in> set ts. t \<noteq> [] \<and> t \<noteq> [0x2D] \<and> (\<forall>c \<in> set t. \<not> isspace c))"

text \<open>An alignment string split at whitespace, the gap symbols removed.\<close>

definition gap_free :: "pystr \<Rightarrow> pystr list" where
  "gap_free al = [x \<leftarrow> split al. x \<noteq> [0x2D]]"

text \<open>
  What the claim about the compact IDs asks of a column of IDs for a column of keys: one ID
  for each row; equal IDs exactly for equal keys; the IDs are the integers from 1 to the
  number of distinct keys; a row whose key was not seen in an earlier row gets the next
  unused integer.
\<close>

definition dense_first_seen :: "'k list \<Rightarrow> nat list \<Rightarrow> bool" where
  "dense_first_seen keys ids =
     (length ids = length keys \<and>
      (\<forall>i < length keys. \<forall>j < length keys. ids ! i = ids ! j \<longleftrightarrow> keys ! i = keys ! j) \<and>
      set ids = {1..card (set keys)} \<and>
      (\<forall>j < length keys. keys ! j \<notin> set (take j keys) \<longrightarrow>
         ids ! j = Suc (card (set (take j keys)))))"

text \<open>
  The table of Scenario E: one LONG_COGID shared by two concepts, and a second one.
\<close>

definition scenario_E :: "merged_row list" where
  "scenario_E =
     [\<lparr>LONG_COGID = Str (ustr ''x''), CONCEPT_ID = Num 1\<rparr>,
      \<lparr>LONG_COGID = Str (ustr ''x''), CONCEPT_ID = Num 2\<rparr>,
      \<lparr>LONG_COGID = Str (ustr ''y''), CONCEPT_ID = Num 1\<rparr>,
      \<lparr>LONG_COGID = Str (ustr ''x''), CONCEPT_ID = Num 1\<rparr>]"

text \<open>
  A table whose numeric column CONCEPT_ID has a missing value in its second row.
\<close>

definition missing_concept_table :: "merged_row list" where
  "missing_concept_table =
     [\<lparr>LONG_COGID = Str (ustr ''x''), CONCEPT_ID = Num 1\<rparr>,
      \<lparr>LONG_COGID = Str (ustr ''x''), CONCEPT_ID = NaN\<rparr>]"

text \<open>
  The resolution of a reset row in the words of the claim: the rows of the automatic table
  matching the row's doculect, transcription and concept; the pool, which is the automatic
  rows sharing the first match's automatic label when there is a match and the working
  rows sharing the row's own label otherwise; the representative, which is the first row
  of the pool, or the row itself when the pool is empty.
\<close>

definition automatic_matches :: "cognate_row list \<Rightarrow> cognate_row \<Rightarrow> cognate_row list" where
  "automatic_matches autocognates row =
     [r \<leftarrow> autocognates.
        cell_eq (DOCULECT r) (DOCULECT row) \<and> cell_eq (IPA r) (IPA row) \<and>
        cell_eq (CONCEPT r) (CONCEPT row)]"

definition reset_pool :: "cognate_row list \<Rightarrow> cognate_row list \<Rightarrow> cognate_row \<Rightarrow> cognate_row list" where
  "reset_pool cognates autocognates row =
     (if automatic_matches autocognates row \<noteq> []
      then [r \<leftarrow> autocognates.
              cell_eq (AUTO_COGID r) (AUTO_COGID (hd (automatic_matches autocognates row)))]
      else [r \<leftarrow> cognates. cell_eq (COGNATE_SET r) (COGNATE_SET row)])"

definition pool_representative :: "cognate_row list \<Rightarrow> cognate_row \<Rightarrow> cognate_row" where
  "pool_representative pool row = (if pool = [] then row else hd pool)"

text \<open>
  Example tables, each sorted by DOCULECT_ID: an automatic table with one class of two
  rows; a manual table with no labels, whose first row is in the automatic table and whose
  second row is not; a coded table whose two rows share the label 1 across two concepts,
  and the same table with the two concepts exchanged; a coded table whose column
  COGNATE_SET is of floats, since its last row has no label.
\<close>

definition automatic_table :: "cognate_row list" where
  "automatic_table =
     [\<lparr>DOCULECT = Str (ustr ''Abui''), DOCULECT_ID = Str (ustr ''abz''),
       CONCEPT = Str (ustr ''hand''), IPA = Str (ustr ''lima''),
       COGNATE_SET = NaN, AUTO_COGID = Num 7\<rparr>,
      \<lparr>DOCULECT = Str (ustr ''Blagar''), DOCULECT_ID = Str (ustr ''beu''),
       CONCEPT = Str (ustr ''five''), IPA = Str (ustr ''lima''),
       COGNATE_SET = NaN, AUTO_COGID = Num 7\<rparr>]"

definition manual_table :: "cognate_row list" where
  "manual_table =
     [\<lparr>DOCULECT = Str (ustr ''Blagar''), DOCULECT_ID = Str (ustr ''beu''),
       CONCEPT = Str (ustr ''five''), IPA = Str (ustr ''lima''),
       COGNATE_SET = NaN, AUTO_COGID = NaN\<rparr>,
      \<lparr>DOCULECT = Str (ustr ''Kula''), DOCULECT_ID = Str (ustr ''tpg''),
       CONCEPT = Str (ustr ''hand''), IPA = Str (ustr ''tang''),
       COGNATE_SET = NaN, AUTO_COGID = NaN\<rparr>]"

definition coded_table :: "cognate_row list" where
  "coded_table =
     [\<lparr>DOCULECT = Str (ustr ''Abui''), DOCULECT_ID = Str (ustr ''abz''),
       CONCEPT = Str (ustr ''hand''), IPA = Str (ustr ''lima''),
       COGNATE_SET = Num 1, AUTO_COGID = Num 7\<rparr>,
      \<lparr>DOCULECT = Str (ustr ''Blagar''), DOCULECT_ID = Str (ustr ''beu''),
       CONCEPT = Str (ustr ''five''), IPA = Str (ustr ''lima''),
       COGNATE_SET = Num 1, AUTO_COGID = Num 7\<rparr>]"

definition exchanged_table :: "cognate_row list" where
  "exchanged_table =
     [\<lparr>DOCULECT = Str (ustr ''Abui''), DOCULECT_ID = Str (ustr ''abz''),
       CONCEPT = Str (ustr ''five''), IPA = Str (ustr ''lima''),
       COGNATE_SET = Num 1, AUTO_COGID = Num 7\<rparr>,
      \<lparr>DOCULECT = Str (ustr ''Blagar''), DOCULECT_ID = Str (ustr ''beu''),
       CONCEPT = Str (ustr ''hand''), IPA = Str (ustr ''lima''),
       COGNATE_SET = Num 1, AUTO_COGID = Num 7\<rparr>]"

definition float_coded_table :: "cognate_row list" where
  "float_coded_table =
     [\<lparr>DOCULECT = Str (ustr ''Abui''), DOCULECT_ID = Str (ustr ''abz''),
       CONCEPT = Str (ustr ''hand''), IPA = Str (ustr ''lima''),
       COGNATE_SET = Num 7, AUTO_COGID = NaN\<rparr>,
      \<lparr>DOCULECT = Str (ustr ''Blagar''), DOCULECT_ID = Str (ustr ''beu''),
       CONCEPT = Str (ustr ''five''), IPA = Str (ustr ''lima''),
       COGNATE_SET = Num 7, AUTO_COGID = NaN\<rparr>,
      \<lparr>DOCULECT = Str (ustr ''Kula''), DOCULECT_ID = Str (ustr ''tpg''),
       CONCEPT = Str (ustr ''hand''), IPA = Str (ustr ''tang''),
       COGNATE_SET = NaN, AUTO_COGID = NaN\<rparr>]"

text \<open>
  The token count of an alignment in the words of the claim, a missing alignment counting
  as the one unknown value None, and the set of the distinct counts over the rows of a
  COGID group.
\<close>

definition alignment_length :: "cell \<Rightarrow> nat option" where
  "alignment_length x = (case x of Str s \<Rightarrow> Some (length (split s)) | Num i \<Rightarrow> None | NaN \<Rightarrow> None)"

definition alignment_lengths :: "aligned_row list \<Rightarrow> int \<Rightarrow> nat option set" where
  "alignment_lengths rows g =
     set (map (\<lambda>r. alignment_length (ALIGNMENT r)) [r \<leftarrow> rows. COGID r = Some g])"

text \<open>
  The table of Scenario D, with the column AUTO_ALIGNMENT: the class 1 has alignments of 3
  and 4 tokens, the class 2 two alignments of 3 tokens. A second table without that column,
  whose class has a missing alignment and one of 1 token.
\<close>

definition scenario_D :: "aligned_row list" where
  "scenario_D =
     [\<lparr>COGID = Some 1, ALIGNMENT = Str (ustr ''t a m''),
       AUTO_ALIGNMENT = Some (Str (ustr ''t a m -''))\<rparr>,
      \<lparr>COGID = Some 2, ALIGNMENT = Str (ustr ''l i m''),
       AUTO_ALIGNMENT = Some (Str (ustr ''l i m''))\<rparr>,
      \<lparr>COGID = Some 1, ALIGNMENT = Str (ustr ''t a m a''),
       AUTO_ALIGNMENT = Some (Str (ustr ''t a m a''))\<rparr>,
      \<lparr>COGID = Some 2, ALIGNMENT = Str (ustr ''r - m''),
       AUTO_ALIGNMENT = Some (Str (ustr ''r i m''))\<rparr>]"

definition no_fallback_table :: "aligned_row list" where
  "no_fallback_table =
     [\<lparr>COGID = Some 5, ALIGNMENT = NaN, AUTO_ALIGNMENT = None\<rparr>,
      \<lparr>COGID = Some 5, ALIGNMENT = Str (ustr ''a''), AUTO_ALIGNMENT = None\<rparr>]"

section \<open>Facts about the scan\<close>

lemma substitute_simps:
  "substitute 0x2C8 = 0x27" "substitute 0x27 = 0x27" "substitute 0x2A = 0x2A"
  "substitute 0x74 = 0x74" "substitute 0x61 = 0x61" "substitute 0x6D = 0x6D"
  "substitute 0x2D = 0x2D" "substitute 0x5F = 0x5F" "substitute 0x2E = 0x2E"
  by (simp_all add: substitute_def substitutions_def)

lemma scan_loop_append:
  "scan_loop C V (xs @ ys) st =
     (fst (scan_loop C V xs st) @ fst (scan_loop C V ys (snd (scan_loop C V xs st))),
      snd (scan_loop C V ys (snd (scan_loop C V xs st))))"
  by (induction xs arbitrary: st) (simp_all add: split_beta)

lemma tokenize_nonempty_form:
  "form \<noteq> [] \<Longrightarrow>
   tokenize C V form =
     Inr (fst (scan_loop C V (if hd form = 0x2A then tl form else form) ([], False)) @
          [fst (snd (scan_loop C V (if hd form = 0x2A then tl form else form) ([], False)))])"
  by (cases form) (simp_all add: tokenize_def split_beta)

section \<open>Claims about the segmenter\<close>

text \<open>
  C8 (as amended). \<open>tokenize\<close> returns on every non-empty transcription, and what it returns
  is never empty: it is the segments yielded during the scan followed by the final buffer,
  which is yielded even when it is empty. On the empty transcription \<open>form[0]\<close> raises
  IndexError.
\<close>

theorem tokenize_total_nonempty:
  assumes "form \<noteq> []"
  shows "\<exists>ts. tokenize consonants vowels form = Inr ts \<and> ts \<noteq> [] \<and>
          butlast ts =
            fst (scan_loop consonants vowels (if hd form = 0x2A then tl form else form) ([], False)) \<and>
          last ts =
            fst (snd (scan_loop consonants vowels (if hd form = 0x2A then tl form else form) ([], False)))"
  using tokenize_nonempty_form [OF assms, of consonants vowels] by simp

theorem tokenize_total_nonempty_witness:
  "ustr ''*'' \<noteq> [] \<and>
   (\<exists>ts. tokenize [] [] (ustr ''*'') = Inr ts \<and> ts \<noteq> [] \<and> butlast ts = [] \<and> last ts = [])"
  using tokenize_total_nonempty [of "ustr ''*''" "[]" "[]"]
  by (simp add: ustr_def)

text \<open>
  C8, the claim as written, fails: the empty transcription makes \<open>tokenize\<close> raise.
\<close>

theorem tokenize_empty_raises:
  "tokenize [ustr ''t''] [ustr ''a''] [] = Inl IndexError"
  by (simp add: tokenize_def)

lemma step_stress:
  "substitute s = 0x27 \<Longrightarrow> step C V st s = (flush (fst st), ([], True))"
  by (simp add: step_def)

lemma step_vowel:
  "vowel_symbol C V s \<Longrightarrow>
   step C V (seg, b) s = (flush seg, (if b then [0x27, substitute s] else [substitute s], b))"
  by (simp add: step_def vowel_symbol_def Let_def)

text \<open>A buffer that is not empty is the beginning of the next segment yielded.\<close>

lemma scan_first_segment:
  "seg \<noteq> [] \<Longrightarrow>
   \<exists>rest out. fst (scan_loop C V form (seg, b)) @ [fst (snd (scan_loop C V form (seg, b)))] =
               (seg @ rest) # out"
proof (induction form arbitrary: seg b)
  case Nil
  then show ?case by simp
next
  case (Cons s form)
  show ?case
  proof (cases "fst (step C V (seg, b) s) = []")
    case True
    then have st: "step C V (seg, b) s = ([], (seg @ [substitute s], b))"
      using Cons.prems by (auto simp add: step_def Let_def flush_def split: if_splits)
    from Cons.IH [of "seg @ [substitute s]" b] obtain rest out where
      "fst (scan_loop C V form (seg @ [substitute s], b)) @
         [fst (snd (scan_loop C V form (seg @ [substitute s], b)))] =
       ((seg @ [substitute s]) @ rest) # out"
      by blast
    then show ?thesis using st by (auto simp add: split_beta)
  next
    case False
    then obtain out st where "step C V (seg, b) s = (seg # out, st)"
      using Cons.prems by (auto simp add: step_def Let_def flush_def split: if_splits)
    then show ?thesis by (simp add: split_beta)
  qed
qed

text \<open>
  C2 (as amended). For the transcription of the stress mark U+02C8 followed by \<open>tama\<close>,
  with \<open>t\<close> and \<open>m\<close> consonant glyphs and \<open>a\<close> a vowel glyph only, \<open>tokenize\<close> returns
  the four tokens \<open>t\<close>, \<open>a\<close>, \<open>m\<close>, \<open>a\<close>: the consonant after the stress mark clears the
  pending stress, so no vowel carries the stress tag.
\<close>

theorem tokenize_stress_before_consonant:
  assumes "[0x74] \<in> set consonants" and "[0x6D] \<in> set consonants"
    and "[0x61] \<in> set vowels" and "[0x61] \<notin> set consonants"
  shows "tokenize consonants vowels (0x2C8 # ustr ''tama'') =
           Inr [ustr ''t'', ustr ''a'', ustr ''m'', ustr ''a'']"
  using assms
  by (simp add: tokenize_def ustr_def step_def substitute_simps flush_def Let_def)

theorem tokenize_stress_before_consonant_witness:
  "tokenize [ustr ''t'', ustr ''m''] [ustr ''a''] (0x2C8 # ustr ''tama'') =
     Inr [ustr ''t'', ustr ''a'', ustr ''m'', ustr ''a'']"
  using tokenize_stress_before_consonant [of "[ustr ''t'', ustr ''m'']" "[ustr ''a'']"]
  by (simp add: ustr_def)

text \<open>
  C2, the claim as written, fails: the result is not \<open>t\<close>, \<open>'a\<close>, \<open>m\<close>, \<open>a\<close>.
\<close>

theorem tokenize_tama_not_stressed:
  "tokenize [ustr ''t'', ustr ''m''] [ustr ''a''] (0x2C8 # ustr ''tama'') \<noteq>
     Inr [ustr ''t'', 0x27 # ustr ''a'', ustr ''m'', ustr ''a'']"
  by (simp add: tokenize_def ustr_def step_def substitute_simps flush_def Let_def)

text \<open>The pending-stress flag after one pass of the loop, and after the whole loop.\<close>

lemma step_stress_flag: "snd (snd (step C V (seg, b) s)) = stress_after_symbol C V s b"
  by (simp add: step_def stress_after_symbol_def consonant_symbol_def Let_def)

lemma scan_loop_stress_flag:
  "snd (snd (scan_loop C V form (seg, b))) = fold (stress_after_symbol C V) form b"
proof (induction form arbitrary: seg b)
  case Nil
  show ?case by simp
next
  case (Cons s form)
  obtain out seg' b' where st: "step C V (seg, b) s = (out, (seg', b'))"
    by (metis surj_pair)
  then have "b' = stress_after_symbol C V s b"
    using step_stress_flag [of C V seg b s] by simp
  then show ?case using st Cons.IH [of seg' b'] by (simp add: split_beta)
qed

lemma stress_kept_without_consonant:
  "\<forall>x \<in> set mid. \<not> consonant_symbol C V x \<Longrightarrow> fold (stress_after_symbol C V) mid True = True"
  by (induction mid) (simp_all add: stress_after_symbol_def)

lemma stress_kept_two_vowels:
  assumes s: "substitute s = 0x27"
    and v1: "vowel_symbol consonants vowels v1"
    and v2: "vowel_symbol consonants vowels v2"
  shows "\<exists>out1 rest out2.
           tokenize consonants vowels (pre @ [s, v1, v2] @ post) =
             Inr (out1 @ [[0x27, substitute v1], [0x27, substitute v2] @ rest] @ out2)"
proof -
  define form where "form = pre @ [s, v1, v2] @ post"
  have "\<exists>p. (if hd form = 0x2A then tl form else form) = p @ [s, v1, v2] @ post"
  proof (cases pre)
    case Nil
    have "s \<noteq> 0x2A" using s by (auto simp add: substitute_simps)
    then show ?thesis using Nil by (auto simp add: form_def)
  next
    case (Cons c pre')
    then show ?thesis by (auto simp add: form_def)
  qed
  then obtain p where p: "(if hd form = 0x2A then tl form else form) = p @ [s, v1, v2] @ post"
    by blast
  have ne: "form \<noteq> []" by (simp add: form_def)
  obtain o1 st1 where r1: "scan_loop consonants vowels p ([], False) = (o1, st1)"
    by (cases "scan_loop consonants vowels p ([], False)")
  obtain rest out where r2:
    "fst (scan_loop consonants vowels post ([0x27, substitute v2], True)) @
       [fst (snd (scan_loop consonants vowels post ([0x27, substitute v2], True)))] =
     ([0x27, substitute v2] @ rest) # out"
    using scan_first_segment [of "[0x27, substitute v2]" consonants vowels post True] by blast
  have "tokenize consonants vowels form =
     Inr ((o1 @ flush (fst st1)) @ [[0x27, substitute v1], [0x27, substitute v2] @ rest] @ out)"
    unfolding tokenize_nonempty_form [OF ne] p
    using r1 r2 step_stress [OF s, of consonants vowels st1]
      step_vowel [OF v1, of "[]" True] step_vowel [OF v2, of "[0x27, substitute v1]" True]
    by (simp add: scan_loop_append split_beta flush_def)
  then show ?thesis unfolding form_def by blast
qed

lemma stress_reaches_vowel:
  assumes s: "substitute s = 0x27"
    and mid: "\<forall>x \<in> set mid. \<not> consonant_symbol consonants vowels x"
    and v: "vowel_symbol consonants vowels v"
  shows "\<exists>out1 rest out2.
           tokenize consonants vowels (pre @ [s] @ mid @ [v] @ post) =
             Inr (out1 @ [[0x27, substitute v] @ rest] @ out2)"
proof -
  define form where "form = pre @ [s] @ mid @ [v] @ post"
  have "\<exists>p. (if hd form = 0x2A then tl form else form) = p @ [s] @ mid @ [v] @ post"
  proof (cases pre)
    case Nil
    have "s \<noteq> 0x2A" using s by (auto simp add: substitute_simps)
    then show ?thesis using Nil by (auto simp add: form_def)
  next
    case (Cons c pre')
    then show ?thesis by (auto simp add: form_def)
  qed
  then obtain p where p: "(if hd form = 0x2A then tl form else form) = p @ [s] @ mid @ [v] @ post"
    by blast
  have ne: "form \<noteq> []" by (simp add: form_def)
  obtain o1 st1 where r1: "scan_loop consonants vowels p ([], False) = (o1, st1)"
    by (metis surj_pair)
  obtain o2 seg2 b2 where r2: "scan_loop consonants vowels mid ([], True) = (o2, (seg2, b2))"
    by (metis surj_pair)
  have "b2 = True"
    using scan_loop_stress_flag [of consonants vowels mid "[]" True] r2
      stress_kept_without_consonant [OF mid] by simp
  with r2 have r2': "scan_loop consonants vowels mid ([], True) = (o2, (seg2, True))" by simp
  obtain rest out where r3:
    "fst (scan_loop consonants vowels post ([0x27, substitute v], True)) @
       [fst (snd (scan_loop consonants vowels post ([0x27, substitute v], True)))] =
     ([0x27, substitute v] @ rest) # out"
    using scan_first_segment [of "[0x27, substitute v]" consonants vowels post True] by blast
  have "tokenize consonants vowels form =
     Inr ((o1 @ flush (fst st1) @ o2 @ flush seg2) @ [[0x27, substitute v] @ rest] @ out)"
    unfolding tokenize_nonempty_form [OF ne] p
    using r1 r2' r3 step_stress [OF s, of consonants vowels st1]
      step_vowel [OF v, of seg2 True]
    by (simp add: scan_loop_append split_beta)
  then show ?thesis unfolding form_def by blast
qed

text \<open>
  C3 (as amended). Scanning a vowel consumes the pending-stress flag without clearing it:
  over the whole loop a stress marker sets the flag, a consonant clears it, and no other
  symbol (a vowel, a boundary marker, an unclassified symbol) changes it. So the stress
  prefix \<open>'\<close> is carried by a vowel that follows a stress marker with no consonant in
  between, and wherever a stress marker is directly followed by two vowel symbols, both
  resulting vowel segments carry it.
\<close>

theorem tokenize_stress_kept_by_vowel:
  assumes s: "substitute s = 0x27"
    and v1: "vowel_symbol consonants vowels v1"
    and v2: "vowel_symbol consonants vowels v2"
  shows "snd (snd (scan_loop consonants vowels form (segment, stress))) =
           fold (stress_after_symbol consonants vowels) form stress \<and>
         step consonants vowels (segment, stress) v1 =
           (flush segment, (if stress then [0x27, substitute v1] else [substitute v1], stress)) \<and>
         ((\<forall>x \<in> set mid. \<not> consonant_symbol consonants vowels x) \<longrightarrow>
            (\<exists>out1 rest out2.
               tokenize consonants vowels (pre @ [s] @ mid @ [v1] @ post) =
                 Inr (out1 @ [[0x27, substitute v1] @ rest] @ out2))) \<and>
         (\<exists>out1 rest out2.
            tokenize consonants vowels (pre @ [s, v1, v2] @ post) =
              Inr (out1 @ [[0x27, substitute v1], [0x27, substitute v2] @ rest] @ out2))"
  using scan_loop_stress_flag [of consonants vowels form segment stress]
    step_vowel [OF v1, of segment stress]
    stress_reaches_vowel [OF s _ v1, of mid pre post]
    stress_kept_two_vowels [OF s v1 v2, of pre post]
  by blast

theorem tokenize_stress_kept_by_vowel_witness:
  "substitute 0x2C8 = 0x27 \<and> vowel_symbol [ustr ''t''] [ustr ''a'', ustr ''i''] 0x61 \<and>
   vowel_symbol [ustr ''t''] [ustr ''a'', ustr ''i''] 0x69 \<and>
   \<not> consonant_symbol [ustr ''t''] [ustr ''a'', ustr ''i''] 0x5F \<and>
   \<not> consonant_symbol [ustr ''t''] [ustr ''a'', ustr ''i''] 0x2E \<and>
   snd (snd (scan_loop [ustr ''t''] [ustr ''a'', ustr ''i''] [0x2C8, 0x61, 0x5F, 0x69, 0x74, 0x61]
               ([], False))) = False \<and>
   (\<exists>out1 rest out2.
      tokenize [ustr ''t''] [ustr ''a'', ustr ''i''] (ustr ''t'' @ [0x2C8] @ [0x5F, 0x2E] @ [0x61] @ ustr ''t'') =
        Inr (out1 @ [[0x27, substitute 0x61] @ rest] @ out2)) \<and>
   (\<exists>out1 rest out2.
      tokenize [ustr ''t''] [ustr ''a'', ustr ''i''] (ustr ''t'' @ [0x2C8, 0x61, 0x69] @ ustr ''t'') =
        Inr (out1 @ [[0x27, substitute 0x61], [0x27, substitute 0x69] @ rest] @ out2))"
proof -
  have s: "substitute 0x2C8 = 0x27" by (simp add: substitute_simps)
  have v1: "vowel_symbol [ustr ''t''] [ustr ''a'', ustr ''i''] 0x61"
    by (simp add: vowel_symbol_def substitute_def substitutions_def ustr_def)
  have v2: "vowel_symbol [ustr ''t''] [ustr ''a'', ustr ''i''] 0x69"
    by (simp add: vowel_symbol_def substitute_def substitutions_def ustr_def)
  have c: "\<not> consonant_symbol [ustr ''t''] [ustr ''a'', ustr ''i''] 0x5F"
    "\<not> consonant_symbol [ustr ''t''] [ustr ''a'', ustr ''i''] 0x2E"
    by (simp_all add: consonant_symbol_def substitute_def substitutions_def)
  have m: "\<forall>x \<in> set [0x5F, 0x2E]. \<not> consonant_symbol [ustr ''t''] [ustr ''a'', ustr ''i''] x"
    using c by simp
  have f: "fold (stress_after_symbol [ustr ''t''] [ustr ''a'', ustr ''i''])
             [0x2C8, 0x61, 0x5F, 0x69, 0x74, 0x61] False = False"
    by (simp add: stress_after_symbol_def consonant_symbol_def substitute_def substitutions_def
        ustr_def)
  note inst = tokenize_stress_kept_by_vowel [OF s v1 v2,
      of "[0x2C8, 0x61, 0x5F, 0x69, 0x74, 0x61]" "[]" False "[0x5F, 0x2E]" "ustr ''t''" "ustr ''t''"]
  from inst f have "snd (snd (scan_loop [ustr ''t''] [ustr ''a'', ustr ''i'']
        [0x2C8, 0x61, 0x5F, 0x69, 0x74, 0x61] ([], False))) = False"
    by simp
  moreover from inst m have "\<exists>out1 rest out2.
      tokenize [ustr ''t''] [ustr ''a'', ustr ''i''] (ustr ''t'' @ [0x2C8] @ [0x5F, 0x2E] @ [0x61] @ ustr ''t'') =
        Inr (out1 @ [[0x27, substitute 0x61] @ rest] @ out2)"
    by blast
  moreover from inst have "\<exists>out1 rest out2.
      tokenize [ustr ''t''] [ustr ''a'', ustr ''i''] (ustr ''t'' @ [0x2C8, 0x61, 0x69] @ ustr ''t'') =
        Inr (out1 @ [[0x27, substitute 0x61], [0x27, substitute 0x69] @ rest] @ out2)"
    by blast
  ultimately show ?thesis using s v1 v2 c by blast
qed

text \<open>
  C3, the claim as written, fails: after one stress mark both vowels of \<open>aa\<close> are tagged,
  and so is the vowel after the word boundary in \<open>a_a\<close>.
\<close>

theorem tokenize_second_vowel_stressed:
  "tokenize [] [ustr ''a''] (0x2C8 # ustr ''aa'') = Inr [0x27 # ustr ''a'', 0x27 # ustr ''a''] \<and>
   tokenize [] [ustr ''a''] (0x2C8 # ustr ''a_a'') =
     Inr [0x27 # ustr ''a'', ustr ''_'', 0x27 # ustr ''a'']"
  by (simp add: tokenize_def ustr_def step_def substitute_simps flush_def Let_def)

section \<open>Facts about \<open>split\<close>, \<open>join\<close> and \<open>mapM\<close>\<close>

lemma isspace_space: "isspace 0x20" by (simp add: isspace_def)

lemma split_aux_sep:
  "isspace c \<Longrightarrow> split_aux w (xs @ c # ys) = split_aux w xs @ split_aux [] ys"
  by (induction xs arbitrary: w) simp_all

lemma split_join_Cons:
  "ts \<noteq> [] \<Longrightarrow> split (join (t # ts)) = split t @ split (join ts)"
  by (cases ts) (simp_all add: split_def split_aux_sep isspace_space)

lemma split_join: "split (join ts) = concat (map split ts)"
proof (induction ts)
  case Nil
  show ?case by (simp add: split_def flush_def)
next
  case (Cons t ts)
  then show ?case by (cases "ts = []") (simp_all add: split_join_Cons)
qed

lemma split_aux_word: "\<forall>c \<in> set t. \<not> isspace c \<Longrightarrow> split_aux w t = flush (w @ t)"
  by (induction t arbitrary: w) simp_all

lemma split_word: "t \<noteq> [] \<Longrightarrow> \<forall>c \<in> set t. \<not> isspace c \<Longrightarrow> split t = [t]"
  by (simp add: split_def split_aux_word flush_def)

lemma split_join_clean:
  "\<forall>t \<in> set ts. t \<noteq> [] \<and> (\<forall>c \<in> set t. \<not> isspace c) \<Longrightarrow> concat (map split ts) = ts"
  by (induction ts) (simp_all add: split_word)

lemma gap_free_join: "clean_tokens ts \<Longrightarrow> gap_free (join ts) = ts"
proof -
  assume c: "clean_tokens ts"
  then have "concat (map split ts) = ts"
    by (intro split_join_clean) (simp add: clean_tokens_def)
  moreover have "[x \<leftarrow> ts. x \<noteq> [0x2D]] = ts"
    using c by (simp add: clean_tokens_def)
  ultimately show ?thesis by (simp add: gap_free_def split_join)
qed

lemma mapM_Inr:
  "mapM f xs = Inr ys \<Longrightarrow> length ys = length xs \<and> (\<forall>i < length xs. f (xs ! i) = Inr (ys ! i))"
proof (induction xs arbitrary: ys)
  case Nil
  then show ?case by simp
next
  case (Cons x xs)
  then show ?case
    by (auto split: sum.splits simp add: nth_Cons split: nat.splits)
qed

lemma mapM_total: "\<forall>x \<in> set xs. \<exists>y. f x = Inr y \<Longrightarrow> \<exists>ys. mapM f xs = Inr ys"
  by (induction xs) (auto split: sum.splits)

lemma normalize_form_empty: "normalize_form num_str f = [] \<longleftrightarrow> py_str num_str f = []"
  by (simp add: normalize_form_def replace_def)

lemma tokenize_Inr: "form \<noteq> [] \<Longrightarrow> \<exists>ts. tokenize C V form = Inr ts"
  using tokenize_nonempty_form by blast

lemma alignment_row_cases:
  "tokenize C V (normalize_form num_str f) = Inr ts \<Longrightarrow>
   \<exists>out. alignment_row num_str C V f (Str a) = Inr out \<and> (out = join ts \<or> gap_free out = ts)"
  by (simp add: alignment_row_def Let_def gap_free_def)

lemma alignment_row_round_trip:
  "tokenize C V (normalize_form num_str f) = Inr ts \<Longrightarrow> clean_tokens ts \<Longrightarrow>
   alignment_row num_str C V f (Str a) = Inr out \<Longrightarrow> gap_free out = ts"
  using alignment_row_cases [of C V num_str f ts a] gap_free_join [of ts] by auto

lemma replace_idem: "a \<noteq> b \<Longrightarrow> replace a b (replace a b s) = replace a b s"
  by (simp add: replace_def)

lemma normalize_form_idem: "normalize_form num_str (Str (normalize_form num_str f)) = normalize_form num_str f"
  by (simp add: normalize_form_def replace_def py_str_def)

lemma normalize_form_no_space:
  "0x0A \<notin> set (normalize_form num_str f) \<and> 0x20 \<notin> set (normalize_form num_str f)"
  by (auto simp add: normalize_form_def replace_def)

lemma scan_boundary: "[0x5F] \<in> set (fst (scan_loop C V (p @ 0x5F # q) st))"
  by (simp add: scan_loop_append split_beta step_def substitute_simps Let_def)

lemma tokenize_underscore:
  assumes "0x20 \<in> set (py_str num_str f)"
  shows "\<exists>ts. tokenize C V (normalize_form num_str f) = Inr ts \<and> [0x5F] \<in> set ts"
proof -
  from assms obtain xs ys where s: "py_str num_str f = xs @ 0x20 # ys"
    by (auto simp add: in_set_conv_decomp)
  define n where "n = normalize_form num_str f"
  have n: "n = replace 0x20 0x5F (replace 0x0A 0x3B xs) @ 0x5F # replace 0x20 0x5F (replace 0x0A 0x3B ys)"
    by (simp add: n_def normalize_form_def s replace_def)
  have "\<exists>p q. (if hd n = 0x2A then tl n else n) = p @ 0x5F # q"
  proof (cases "replace 0x20 0x5F (replace 0x0A 0x3B xs)")
    case Nil
    then show ?thesis using n by auto
  next
    case (Cons c cs)
    show ?thesis
    proof (cases "c = 0x2A")
      case True
      then show ?thesis using n Cons by auto
    next
      case False
      then have "(if hd n = 0x2A then tl n else n) = (c # cs) @ 0x5F # replace 0x20 0x5F (replace 0x0A 0x3B ys)"
        using n Cons by simp
      then show ?thesis by blast
    qed
  qed
  then obtain p q where pq: "(if hd n = 0x2A then tl n else n) = p @ 0x5F # q" by blast
  have "n \<noteq> []" using n by simp
  from tokenize_nonempty_form [OF this, of C V] scan_boundary [of C V p q "([], False)"]
  show ?thesis unfolding n_def [symmetric] pq by simp
qed

lemma split_underscore: "split [0x5F] = [[0x5F]]"
  by (simp add: split_def isspace_def flush_def)

lemma underscore_in_split_join: "[0x5F] \<in> set ts \<Longrightarrow> [0x5F] \<in> set (split (join ts))"
  using split_underscore by (force simp add: split_join)

lemma tokenize_ta_ta:
  "tokenize [ustr ''t''] [ustr ''a''] (ustr ''ta_ta'') =
     Inr [ustr ''t'', ustr ''a'', ustr ''_'', ustr ''t'', ustr ''a'']"
  by (simp add: tokenize_def ustr_def step_def substitute_def substitutions_def flush_def Let_def)

lemma tokenize_ta:
  "tokenize [ustr ''t''] [ustr ''a''] (ustr ''ta'') = Inr [ustr ''t'', ustr ''a'']"
  by (simp add: tokenize_def ustr_def step_def substitute_def substitutions_def flush_def Let_def)

lemma clean_ta_ta: "clean_tokens [ustr ''t'', ustr ''a'', ustr ''_'', ustr ''t'', ustr ''a'']"
  by (simp add: clean_tokens_def ustr_def isspace_def)

lemma clean_ta: "clean_tokens [ustr ''t'', ustr ''a'']"
  by (simp add: clean_tokens_def ustr_def isspace_def)

lemma normalize_ta_ta: "normalize_form int_column_str (Str (ustr ''ta ta'')) = ustr ''ta_ta''"
  by (simp add: normalize_form_def replace_def py_str_def ustr_def)

lemma normalize_ta: "normalize_form int_column_str (Str (ustr ''ta'')) = ustr ''ta''"
  by (simp add: normalize_form_def replace_def py_str_def ustr_def)

section \<open>Claims about the alignment synthesizer\<close>

text \<open>
  C1 (as amended). On a table whose ALIGNMENT cells are strings and whose transcriptions
  are not empty, \<open>alignment\<close> returns one string for each Form, and for every Form whose
  tokenization holds no empty token, no gap symbol \<open>-\<close> and no whitespace inside a token,
  the produced string, split at whitespace and with the gap symbols removed, is exactly
  \<open>tokenize\<close> of the Form's normalized transcription, whether the pre-existing alignment
  was absent, stale and synthesized anew, or kept verbatim.
\<close>

theorem alignment_round_trip:
  assumes "\<forall>(form, al) \<in> set data. (\<exists>a. al = Str a) \<and> py_str num_str form \<noteq> []"
  shows "\<exists>outs. alignment num_str C V data = Inr outs \<and> length outs = length data \<and>
           (\<forall>i < length data. \<forall>ts.
              tokenize C V (normalize_form num_str (fst (data ! i))) = Inr ts \<and> clean_tokens ts \<longrightarrow>
              gap_free (outs ! i) = ts)"
proof -
  have "\<forall>x \<in> set data. \<exists>y. (\<lambda>(form, al). alignment_row num_str C V form al) x = Inr y"
  proof
    fix x assume x: "x \<in> set data"
    obtain f al where fa: "x = (f, al)" by (cases x)
    with x assms obtain a where a: "al = Str a" and ne: "py_str num_str f \<noteq> []" by fastforce
    from ne obtain ts where "tokenize C V (normalize_form num_str f) = Inr ts"
      using tokenize_Inr [of "normalize_form num_str f" C V] by (auto simp add: normalize_form_empty)
    then show "\<exists>y. (\<lambda>(form, al). alignment_row num_str C V form al) x = Inr y"
      using alignment_row_cases [of C V num_str f ts a] fa a by auto
  qed
  then obtain outs where outs: "alignment num_str C V data = Inr outs"
    unfolding alignment_def using mapM_total by blast
  have len: "length outs = length data"
    and each: "\<forall>i < length data. (\<lambda>(form, al). alignment_row num_str C V form al) (data ! i) = Inr (outs ! i)"
    using mapM_Inr [OF outs [unfolded alignment_def]] by auto
  have "\<forall>i < length data. \<forall>ts.
              tokenize C V (normalize_form num_str (fst (data ! i))) = Inr ts \<and> clean_tokens ts \<longrightarrow>
              gap_free (outs ! i) = ts"
  proof (intro allI impI)
    fix i ts assume i: "i < length data"
      and t: "tokenize C V (normalize_form num_str (fst (data ! i))) = Inr ts \<and> clean_tokens ts"
    obtain f al where fa: "data ! i = (f, al)" by (cases "data ! i")
    have "data ! i \<in> set data" using i by simp
    with fa assms obtain a where a: "al = Str a" by fastforce
    have "alignment_row num_str C V f (Str a) = Inr (outs ! i)" using each i fa a by auto
    then show "gap_free (outs ! i) = ts"
      using alignment_row_round_trip [of C V num_str f ts a "outs ! i"] t fa by simp
  qed
  with outs len show ?thesis by blast
qed

theorem alignment_round_trip_witness:
  "\<exists>outs. alignment int_column_str [ustr ''t''] [ustr ''a'']
            [(Str (ustr ''ta ta''), Str []),
             (Str (ustr ''ta''), Str (ustr ''t - a'')),
             (Str (ustr ''ta''), Str (ustr ''t''))] = Inr outs \<and>
          length outs = 3 \<and>
          gap_free (outs ! 0) = [ustr ''t'', ustr ''a'', ustr ''_'', ustr ''t'', ustr ''a''] \<and>
          gap_free (outs ! 1) = [ustr ''t'', ustr ''a''] \<and>
          gap_free (outs ! 2) = [ustr ''t'', ustr ''a'']"
proof -
  let ?data = "[(Str (ustr ''ta ta''), Str []),
                (Str (ustr ''ta''), Str (ustr ''t - a'')),
                (Str (ustr ''ta''), Str (ustr ''t''))]"
  have h: "\<forall>(form, al) \<in> set ?data. (\<exists>a. al = Str a) \<and> py_str int_column_str form \<noteq> []"
    by (simp add: py_str_def ustr_def)
  from alignment_round_trip [OF h, of "[ustr ''t'']" "[ustr ''a'']"] obtain outs where
    o: "alignment int_column_str [ustr ''t''] [ustr ''a''] ?data = Inr outs" and
    l: "length outs = length ?data" and
    r: "\<And>i ts. i < length ?data \<Longrightarrow>
          tokenize [ustr ''t''] [ustr ''a''] (normalize_form int_column_str (fst (?data ! i))) = Inr ts \<Longrightarrow>
          clean_tokens ts \<Longrightarrow> gap_free (outs ! i) = ts"
    by blast
  have "gap_free (outs ! 0) = [ustr ''t'', ustr ''a'', ustr ''_'', ustr ''t'', ustr ''a'']"
    using r [of 0, OF _ _ clean_ta_ta] by (simp add: normalize_ta_ta tokenize_ta_ta)
  moreover have "gap_free (outs ! 1) = [ustr ''t'', ustr ''a'']"
    using r [of 1, OF _ _ clean_ta] by (simp add: normalize_ta tokenize_ta)
  moreover have "gap_free (outs ! 2) = [ustr ''t'', ustr ''a'']"
    using r [of 2, OF _ _ clean_ta] by (simp add: normalize_ta tokenize_ta)
  ultimately show ?thesis using o l by simp
qed

text \<open>
  C1, the claim as written, fails: for \<open>ta-ma\<close> the morpheme boundary \<open>-\<close> is a token of
  its own, which the removal of gap symbols takes out of the synthesized alignment again.
\<close>

theorem alignment_loses_boundary_token:
  "alignment int_column_str [ustr ''t'', ustr ''m''] [ustr ''a''] [(Str (ustr ''ta-ma''), Str [])] =
     Inr [ustr ''t a - m a''] \<and>
   tokenize [ustr ''t'', ustr ''m''] [ustr ''a''] (normalize_form int_column_str (Str (ustr ''ta-ma''))) =
     Inr [ustr ''t'', ustr ''a'', ustr ''-'', ustr ''m'', ustr ''a''] \<and>
   gap_free (ustr ''t a - m a'') = [ustr ''t'', ustr ''a'', ustr ''m'', ustr ''a'']"
  by (simp add: alignment_def alignment_row_def normalize_form_def replace_def py_str_def
      tokenize_def ustr_def step_def substitute_def substitutions_def flush_def Let_def
      gap_free_def split_def isspace_def)

lemma alignment_normalizes_core:
  "(0x0A \<notin> set (normalize_form num_str form) \<and> 0x20 \<notin> set (normalize_form num_str form)) \<and>
   alignment_row num_str C V form (Str a) =
     alignment_row num_str C V (Str (normalize_form num_str form)) (Str (replace 0x0A 0x3B a)) \<and>
   (0x20 \<in> set (py_str num_str form) \<longrightarrow>
      (\<exists>ts out. tokenize C V (normalize_form num_str form) = Inr ts \<and>
                alignment_row num_str C V form (Str a) = Inr out \<and>
                [0x5F] \<in> set ts \<and> [0x5F] \<in> set (split out))) \<and>
   (\<forall>ts out. tokenize C V (normalize_form num_str form) = Inr ts \<and> clean_tokens ts \<and>
              alignment_row num_str C V form (Str a) = Inr out \<longrightarrow> gap_free out = ts)"
proof (intro conjI impI allI)
  show "alignment_row num_str C V form (Str a) =
     alignment_row num_str C V (Str (normalize_form num_str form)) (Str (replace 0x0A 0x3B a))"
    by (simp add: alignment_row_def normalize_form_idem replace_idem)
next
  assume sp: "0x20 \<in> set (py_str num_str form)"
  from tokenize_underscore [OF sp, of C V] obtain ts where
    ts: "tokenize C V (normalize_form num_str form) = Inr ts" and u: "[0x5F] \<in> set ts" by blast
  from alignment_row_cases [OF ts, of a] obtain out where
    out: "alignment_row num_str C V form (Str a) = Inr out" and c: "out = join ts \<or> gap_free out = ts"
    by blast
  from c have "[0x5F] \<in> set (split out)"
  proof
    assume "out = join ts"
    then show ?thesis using underscore_in_split_join [OF u] by simp
  next
    assume "gap_free out = ts"
    then show ?thesis using u by (auto simp add: gap_free_def)
  qed
  with ts out u show "\<exists>ts out. tokenize C V (normalize_form num_str form) = Inr ts \<and>
                alignment_row num_str C V form (Str a) = Inr out \<and>
                [0x5F] \<in> set ts \<and> [0x5F] \<in> set (split out)" by blast
next
  fix ts out
  assume "tokenize C V (normalize_form num_str form) = Inr ts \<and> clean_tokens ts \<and>
              alignment_row num_str C V form (Str a) = Inr out"
  then show "gap_free out = ts" using alignment_row_round_trip by blast
qed (simp_all add: normalize_form_no_space)

lemma normalize_form_pointwise:
  "normalize_form num_str f = map normalized_symbol (py_str num_str f)"
  by (simp add: normalize_form_def replace_def normalized_symbol_def)

lemma alignment_row_sources:
  "alignment_row num_str C V f (Str a) = Inr out \<Longrightarrow>
   \<exists>ts. tokenize C V (normalize_form num_str f) = Inr ts \<and>
        (out = join ts \<or> (out = map normalized_alignment_symbol a \<and> gap_free out = ts))"
  by (auto simp add: alignment_row_def Let_def gap_free_def replace_def
      normalized_alignment_symbol_def [abs_def] split: sum.splits if_splits)

text \<open>
  C10 (as amended). Before synthesizing or checking an alignment, the loop of \<open>alignment\<close>
  normalizes the transcription: every newline becomes \<open>;\<close>, every space becomes \<open>_\<close>
  and every other symbol is kept, so no newline and no space remains; whatever the loop
  returns is either the joined tokenization of the normalized transcription or the
  existing alignment with every newline replaced by \<open>;\<close> and nothing else changed; the
  result on the raw cells is the result on the normalized ones. A space inside a
  transcription therefore surfaces as a standalone \<open>_\<close> token of the produced alignment.
  The gap-free round trip is with respect to the normalized form, and holds when no token
  is empty, is the gap symbol or contains whitespace.
\<close>

theorem alignment_normalizes_first:
  "normalize_form num_str form = map normalized_symbol (py_str num_str form) \<and>
   (\<forall>out. alignment_row num_str C V form (Str a) = Inr out \<longrightarrow>
      (\<exists>ts. tokenize C V (normalize_form num_str form) = Inr ts \<and>
            (out = join ts \<or>
             (out = map normalized_alignment_symbol a \<and> gap_free out = ts)))) \<and>
   (0x0A \<notin> set (normalize_form num_str form) \<and> 0x20 \<notin> set (normalize_form num_str form)) \<and>
   alignment_row num_str C V form (Str a) =
     alignment_row num_str C V (Str (normalize_form num_str form)) (Str (replace 0x0A 0x3B a)) \<and>
   (0x20 \<in> set (py_str num_str form) \<longrightarrow>
      (\<exists>ts out. tokenize C V (normalize_form num_str form) = Inr ts \<and>
                alignment_row num_str C V form (Str a) = Inr out \<and>
                [0x5F] \<in> set ts \<and> [0x5F] \<in> set (split out))) \<and>
   (\<forall>ts out. tokenize C V (normalize_form num_str form) = Inr ts \<and> clean_tokens ts \<and>
              alignment_row num_str C V form (Str a) = Inr out \<longrightarrow> gap_free out = ts)"
  using normalize_form_pointwise [of num_str form]
    alignment_row_sources [of num_str C V form a]
    alignment_normalizes_core [of num_str form C V a]
  by blast

theorem alignment_normalizes_first_witness:
  "normalize_form int_column_str (Str [0x74, 0x0A, 0x61, 0x20, 0x74]) = [0x74, 0x3B, 0x61, 0x5F, 0x74] \<and>
   0x20 \<in> set (py_str int_column_str (Str (ustr ''ta ta''))) \<and>
   (\<exists>ts out. tokenize [ustr ''t''] [ustr ''a''] (normalize_form int_column_str (Str (ustr ''ta ta''))) = Inr ts \<and>
             alignment_row int_column_str [ustr ''t''] [ustr ''a''] (Str (ustr ''ta ta'')) (Str []) = Inr out \<and>
             clean_tokens ts \<and> [0x5F] \<in> set ts \<and> [0x5F] \<in> set (split out) \<and>
             gap_free out = ts)"
proof -
  have sp: "0x20 \<in> set (py_str int_column_str (Str (ustr ''ta ta'')))"
    by (simp add: py_str_def ustr_def)
  note inst = alignment_normalizes_first
    [of int_column_str "Str (ustr ''ta ta'')" "[ustr ''t'']" "[ustr ''a'']" "[]"]
  from inst sp obtain ts out where
    ts: "tokenize [ustr ''t''] [ustr ''a''] (normalize_form int_column_str (Str (ustr ''ta ta''))) = Inr ts" and
    out: "alignment_row int_column_str [ustr ''t''] [ustr ''a''] (Str (ustr ''ta ta'')) (Str []) = Inr out" and
    u: "[0x5F] \<in> set ts" "[0x5F] \<in> set (split out)"
    by blast
  from ts have c: "clean_tokens ts"
    using clean_ta_ta by (simp add: normalize_ta_ta tokenize_ta_ta)
  from inst ts out c have "gap_free out = ts" by blast
  moreover have "normalize_form int_column_str (Str [0x74, 0x0A, 0x61, 0x20, 0x74]) =
      [0x74, 0x3B, 0x61, 0x5F, 0x74]"
    using alignment_normalizes_first [of int_column_str "Str [0x74, 0x0A, 0x61, 0x20, 0x74]"]
    by (simp add: py_str_def normalized_symbol_def)
  ultimately show ?thesis using sp ts out c u by blast
qed

text \<open>
  C10, the claim as written, fails in its last part: a transcription with a trailing space
  is normalized to \<open>ta_\<close>, whose tokenization ends with the empty final buffer; the
  synthesized alignment does not give it back.
\<close>

theorem alignment_loses_empty_token:
  "normalize_form int_column_str (Str (ustr ''ta '')) = ustr ''ta_'' \<and>
   tokenize [ustr ''t''] [ustr ''a''] (ustr ''ta_'') = Inr [ustr ''t'', ustr ''a'', ustr ''_'', []] \<and>
   alignment_row int_column_str [ustr ''t''] [ustr ''a''] (Str (ustr ''ta '')) (Str []) = Inr (ustr ''t a _ '') \<and>
   gap_free (ustr ''t a _ '') = [ustr ''t'', ustr ''a'', ustr ''_'']"
  by (simp add: alignment_row_def normalize_form_def replace_def py_str_def
      tokenize_def ustr_def step_def substitute_def substitutions_def flush_def Let_def
      gap_free_def split_def isspace_def)

section \<open>Claims about the compact cognate IDs\<close>

lemma first_seen_append: "first_seen (=) (xs @ ys) acc = first_seen (=) ys (first_seen (=) xs acc)"
  by (induction xs arbitrary: acc) simp_all

lemma set_first_seen: "set (first_seen (=) xs acc) = set acc \<union> set xs"
  by (induction xs arbitrary: acc) auto

lemma distinct_first_seen: "distinct acc \<Longrightarrow> distinct (first_seen (=) xs acc)"
  by (induction xs arbitrary: acc) simp_all

lemma first_seen_extends: "\<exists>zs. first_seen (=) xs acc = acc @ zs"
proof (induction xs arbitrary: acc)
  case Nil
  show ?case by simp
next
  case (Cons x xs)
  from Cons [of "if x \<notin> set acc then acc @ [x] else acc"] show ?case
    by (cases "x \<in> set acc") auto
qed

lemma py_index_first: "x \<notin> set A \<Longrightarrow> py_index (=) (A @ x # B) x = Inr (length A)"
  by (induction A) auto

lemma py_index_Inr: "py_index (=) L x = Inr n \<Longrightarrow> n < length L \<and> L ! n = x"
  by (induction L arbitrary: n) (auto split: if_splits sum.splits)

lemma py_index_total: "x \<in> set L \<Longrightarrow> \<exists>n. py_index (=) L x = Inr n"
  by (induction L) auto

lemma assign_COGID_eq_dense: "\<exists>ids. assign_COGID (=) keys = Inr ids \<and> dense_first_seen keys ids"
proof -
  define L where "L = first_seen (=) keys []"
  define f where "f = (\<lambda>x. case py_index (=) L x of Inl e \<Rightarrow> Inl e | Inr n \<Rightarrow> Inr (n + 1))"
  have setL: "set L = set keys" by (simp add: L_def set_first_seen)
  have dL: "distinct L" by (simp add: L_def distinct_first_seen)
  have lenL: "length L = card (set keys)" using dL setL distinct_card by fastforce
  have "\<forall>x \<in> set keys. \<exists>y. f x = Inr y"
  proof
    fix x assume "x \<in> set keys"
    then obtain n where "py_index (=) L x = Inr n" using py_index_total [of x L] setL by auto
    then show "\<exists>y. f x = Inr y" by (simp add: f_def)
  qed
  then obtain ids where ids: "mapM f keys = Inr ids" using mapM_total by blast
  have a: "assign_COGID (=) keys = Inr ids" using ids by (simp add: assign_COGID_def L_def f_def)
  have len: "length ids = length keys"
    and each: "\<And>i. i < length keys \<Longrightarrow> f (keys ! i) = Inr (ids ! i)"
    using mapM_Inr [OF ids] by auto
  have pos: "\<exists>n. py_index (=) L (keys ! i) = Inr n \<and> ids ! i = Suc n \<and> n < length L \<and> L ! n = keys ! i"
    if "i < length keys" for i
  proof -
    from each [OF that] obtain n where n: "py_index (=) L (keys ! i) = Inr n" and "ids ! i = Suc n"
      by (auto simp add: f_def split: sum.splits)
    with py_index_Inr [OF n] show ?thesis by simp
  qed
  have iff: "ids ! i = ids ! j \<longleftrightarrow> keys ! i = keys ! j"
    if "i < length keys" "j < length keys" for i j
    using pos [OF that(1)] pos [OF that(2)] by auto
  have range: "set ids = {1..card (set keys)}"
  proof (intro set_eqI iffI)
    fix m assume "m \<in> set ids"
    then obtain i where "i < length keys" "ids ! i = m"
      using len by (auto simp add: in_set_conv_nth)
    with pos [of i] lenL show "m \<in> {1..card (set keys)}" by auto
  next
    fix m assume m: "m \<in> {1..card (set keys)}"
    then have lt: "m - 1 < length L" using lenL by auto
    then have "L ! (m - 1) \<in> set keys" using setL nth_mem by blast
    then obtain i where i: "i < length keys" "keys ! i = L ! (m - 1)"
      by (auto simp add: in_set_conv_nth)
    from pos [OF i(1)] obtain n where n: "ids ! i = Suc n" "n < length L" "L ! n = keys ! i"
      by blast
    with i lt dL have "n = m - 1" by (simp add: nth_eq_iff_index_eq)
    with n m have "ids ! i = m" by auto
    then show "m \<in> set ids" using i len by (metis nth_mem)
  qed
  have first: "ids ! j = Suc (card (set (take j keys)))"
    if j: "j < length keys" and new: "keys ! j \<notin> set (take j keys)" for j
  proof -
    define Lj where "Lj = first_seen (=) (take j keys) []"
    have setLj: "set Lj = set (take j keys)" by (simp add: Lj_def set_first_seen)
    have "distinct Lj" by (simp add: Lj_def distinct_first_seen)
    then have lenLj: "length Lj = card (set (take j keys))"
      using setLj distinct_card by fastforce
    have "keys = take j keys @ [keys ! j] @ drop (Suc j) keys"
      using j by (simp add: id_take_nth_drop)
    then have "L = first_seen (=) (drop (Suc j) keys) (first_seen (=) [keys ! j] Lj)"
      unfolding L_def Lj_def by (metis first_seen_append)
    also have "first_seen (=) [keys ! j] Lj = Lj @ [keys ! j]"
      using new setLj by simp
    finally obtain zs where "L = (Lj @ [keys ! j]) @ zs"
      using first_seen_extends by metis
    then have "py_index (=) L (keys ! j) = Inr (length Lj)"
      using py_index_first [of "keys ! j" Lj zs] new setLj by simp
    with pos [OF j] lenLj show ?thesis by simp
  qed
  show ?thesis
    using a len iff range first unfolding dense_first_seen_def by blast
qed

text \<open>
  A comparison that agrees with equality on the keys at hand gives the same list of first
  occurrences and the same positions as equality.
\<close>

lemma first_seen_cong:
  "\<forall>x \<in> set xs \<union> set acc. \<forall>y \<in> set xs \<union> set acc. same x y \<longleftrightarrow> x = y \<Longrightarrow>
   first_seen same xs acc = first_seen (=) xs acc"
proof (induction xs arbitrary: acc)
  case Nil
  show ?case by simp
next
  case (Cons i xs)
  have m: "(\<exists>k \<in> set acc. same k i) \<longleftrightarrow> (\<exists>k \<in> set acc. k = i)"
    using Cons.prems by auto
  let ?acc = "if \<not> (\<exists>k \<in> set acc. k = i) then acc @ [i] else acc"
  have "\<forall>x \<in> set xs \<union> set ?acc. \<forall>y \<in> set xs \<union> set ?acc. same x y \<longleftrightarrow> x = y"
    using Cons.prems by auto
  from Cons.IH [OF this] show ?case by (simp add: m)
qed

lemma py_index_cong:
  "\<forall>y \<in> set L. same y x \<longleftrightarrow> y = x \<Longrightarrow> py_index same L x = py_index (=) L x"
  by (induction L) simp_all

lemma mapM_cong: "\<forall>x \<in> set xs. f x = g x \<Longrightarrow> mapM f xs = mapM g xs"
  by (induction xs) (simp_all split: sum.splits)

lemma assign_COGID_dense:
  assumes "\<forall>x \<in> set keys. \<forall>y \<in> set keys. same x y \<longleftrightarrow> x = y"
  shows "\<exists>ids. assign_COGID same keys = Inr ids \<and> dense_first_seen keys ids"
proof -
  have L: "first_seen same keys [] = first_seen (=) keys []"
    using assms by (intro first_seen_cong) simp
  have "\<forall>x \<in> set keys. py_index same (first_seen (=) keys []) x =
                         py_index (=) (first_seen (=) keys []) x"
    using assms by (intro ballI py_index_cong) (simp add: set_first_seen)
  then have "assign_COGID same keys = assign_COGID (=) keys"
    unfolding assign_COGID_def L Let_def by (intro mapM_cong) simp
  then show ?thesis using assign_COGID_eq_dense [of keys] by simp
qed

lemma py_same_eq: "a \<noteq> NaN \<or> b \<noteq> NaN \<Longrightarrow> py_same shared a b \<longleftrightarrow> a = b"
  by (auto simp add: py_same_def cell_eq_def)

text \<open>
  C4 (as amended). On a table in which no key has a missing component (no LONG_COGID is
  missing, and with \<open>--within-meaning\<close> no CONCEPT_ID either), the assignment of compact
  IDs is a dense first-seen bijection, in both modes: it returns a column of IDs in which
  two rows have equal COGID iff their keys are equal (the key is LONG_COGID alone, or the
  pair of LONG_COGID and CONCEPT_ID with \<open>--within-meaning\<close>), the IDs are exactly the
  integers 1..K for K distinct keys, and they are numbered in the order in which the keys
  are first seen.
\<close>

theorem COGID_dense_first_seen:
  "((\<forall>r \<in> set cognates. LONG_COGID r \<noteq> NaN) \<longrightarrow>
      (\<exists>ids. COGID_column long_shared concept_shared False cognates = Inr ids \<and>
             dense_first_seen (map LONG_COGID cognates) ids)) \<and>
   ((\<forall>r \<in> set cognates. LONG_COGID r \<noteq> NaN \<and> CONCEPT_ID r \<noteq> NaN) \<longrightarrow>
      (\<exists>ids. COGID_column long_shared concept_shared True cognates = Inr ids \<and>
             dense_first_seen (map (\<lambda>r. (LONG_COGID r, CONCEPT_ID r)) cognates) ids))"
proof (intro conjI impI)
  assume h: "\<forall>r \<in> set cognates. LONG_COGID r \<noteq> NaN"
  let ?same = "py_same long_shared"
  have "\<forall>x \<in> set (map LONG_COGID cognates). \<forall>y \<in> set (map LONG_COGID cognates).
          ?same x y \<longleftrightarrow> x = y"
    using h by (auto simp add: py_same_eq)
  from assign_COGID_dense [OF this]
  show "\<exists>ids. COGID_column long_shared concept_shared False cognates = Inr ids \<and>
             dense_first_seen (map LONG_COGID cognates) ids"
    by (simp add: COGID_column_def)
next
  assume h: "\<forall>r \<in> set cognates. LONG_COGID r \<noteq> NaN \<and> CONCEPT_ID r \<noteq> NaN"
  let ?same = "\<lambda>k i. py_same long_shared (fst k) (fst i) \<and>
                     py_same concept_shared (snd k) (snd i)"
  let ?keys = "map (\<lambda>r. (LONG_COGID r, CONCEPT_ID r)) cognates"
  have "\<forall>x \<in> set ?keys. \<forall>y \<in> set ?keys. ?same x y \<longleftrightarrow> x = y"
    using h by (auto simp add: py_same_eq)
  from assign_COGID_dense [OF this]
  show "\<exists>ids. COGID_column long_shared concept_shared True cognates = Inr ids \<and> dense_first_seen ?keys ids"
    by (simp add: COGID_column_def Let_def)
qed

lemma scenario_E_ids:
  "COGID_column False False False scenario_E = Inr [1, 1, 2, 1]"
  "COGID_column False False True scenario_E = Inr [1, 2, 3, 1]"
  by (simp_all add: COGID_column_def assign_COGID_def scenario_E_def ustr_def py_same_def
      cell_eq_def)

theorem COGID_dense_first_seen_witness:
  "COGID_column False False False scenario_E = Inr [1, 1, 2, 1] \<and>
   dense_first_seen (map LONG_COGID scenario_E) [1, 1, 2, 1] \<and>
   COGID_column False False True scenario_E = Inr [1, 2, 3, 1] \<and>
   dense_first_seen (map (\<lambda>r. (LONG_COGID r, CONCEPT_ID r)) scenario_E) [1, 2, 3, 1]"
proof -
  have h: "\<forall>r \<in> set scenario_E. LONG_COGID r \<noteq> NaN \<and> CONCEPT_ID r \<noteq> NaN"
    by (simp add: scenario_E_def)
  then have h': "\<forall>r \<in> set scenario_E. LONG_COGID r \<noteq> NaN" by simp
  from COGID_dense_first_seen [of scenario_E False False] h h' show ?thesis
    by (auto simp add: scenario_E_ids)
qed

text \<open>
  C4, the claim as written, fails: with \<open>--within-meaning\<close> and a numeric column
  CONCEPT_ID (whose missing values are never one object), the key of a row whose
  CONCEPT_ID is missing is not the same as the key that the first pass put in the list,
  and \<open>index\<close> raises ValueError.
\<close>

theorem COGID_missing_concept_raises:
  "COGID_column False False True missing_concept_table = Inl ValueError"
  by (simp add: COGID_column_def assign_COGID_def missing_concept_table_def py_same_def
      cell_eq_def)

section \<open>Claims about the renumbering of stage 0\<close>

lemma label_absent_iff:
  "label_absent x \<longleftrightarrow> x = Str [] \<or> x = Str (ustr ''nan'') \<or> x = NaN \<or> x = Num 0"
  by (cases x) (auto simp add: label_absent_def isnull_def py_not_def)

lemma py_index_label:
  assumes "x \<noteq> NaN" and "x \<in> set order"
  shows "\<exists>n. py_index cell_eq order x = Inr n \<and> n < length order \<and> order ! n = x"
proof -
  have "py_index cell_eq order x = py_index (=) order x"
    using assms(1) by (intro py_index_cong) (auto simp add: cell_eq_def)
  with py_index_total [OF assms(2)] py_index_Inr [of order x] show ?thesis by auto
qed

lemma renumber_example:
  "renumber_COGNATE_SET
     [[Str (ustr ''a''), NaN, Str (ustr ''nan''), Str (ustr ''b'')],
      [Str (ustr ''a''), NaN, Str (ustr ''nan''), Str (ustr ''b'')],
      [Str (ustr ''a''), NaN, Str (ustr ''nan''), Str (ustr ''b'')],
      [Str (ustr ''a''), NaN, Str (ustr ''nan''), Str (ustr ''b'')],
      [Str (ustr ''a''), NaN, Str (ustr ''nan''), Str (ustr ''b'')]]
     [Str (ustr ''b''), NaN, Str (ustr ''a''), Str (ustr ''b''), Str (ustr ''nan'')] =
   Inr [Num 4, Str [], Num 1, Num 4, Str []]"
  by (simp add: renumber_COGNATE_SET_def label_absent_def isnull_def py_not_def ustr_def
      cell_eq_def)

text \<open>
  C9 (as amended). The renumbering of stage 0 maps every empty, missing, literal \<open>nan\<close>
  or numeric zero COGNATE_SET value to the empty string, and every other label to a
  positive integer, one more than the label's position in the enumeration of the set of
  labels built for its row; two rows for which that enumeration is the same receive the
  same integer iff their labels are equal.
\<close>

theorem renumber_COGNATE_SET_injective:
  assumes len: "length orders = length col"
    and enum: "\<forall>order \<in> set orders. \<forall>x \<in> set col. x \<noteq> NaN \<longrightarrow> x \<in> set order"
  shows "\<exists>out. renumber_COGNATE_SET orders col = Inr out \<and> length out = length col \<and>
           (\<forall>i < length col.
              if col ! i = Str [] \<or> col ! i = Str (ustr ''nan'') \<or> col ! i = NaN \<or> col ! i = Num 0
              then out ! i = Str []
              else (\<exists>n > 0. out ! i = Num (of_nat n) \<and> n \<le> length (orders ! i) \<and>
                            orders ! i ! (n - 1) = col ! i) \<and>
                   (\<forall>j < length col. orders ! j = orders ! i \<longrightarrow>
                      (out ! i = out ! j \<longleftrightarrow> col ! i = col ! j)))"
proof -
  define f where "f = (\<lambda>(order, i).
             if label_absent i then Inr (Str [])
             else (case py_index cell_eq order i of
                     Inl e \<Rightarrow> Inl e
                   | Inr n \<Rightarrow> Inr (Num (of_nat n + 1))))"
  have idx: "\<exists>n. py_index cell_eq (orders ! i) (col ! i) = Inr n \<and>
                 n < length (orders ! i) \<and> orders ! i ! n = col ! i"
    if "i < length col" "\<not> label_absent (col ! i)" for i
  proof -
    have "col ! i \<noteq> NaN" using that(2) by (auto simp add: label_absent_iff)
    moreover have "col ! i \<in> set (orders ! i)"
      using enum that(1) len calculation by (metis nth_mem)
    ultimately show ?thesis by (rule py_index_label)
  qed
  have "\<forall>p \<in> set (zip orders col). \<exists>y. f p = Inr y"
  proof
    fix p assume "p \<in> set (zip orders col)"
    then obtain i where i: "i < length col" and p: "p = (orders ! i, col ! i)"
      using len by (auto simp add: set_zip)
    show "\<exists>y. f p = Inr y"
    proof (cases "label_absent (col ! i)")
      case True
      then show ?thesis by (simp add: f_def p)
    next
      case False
      from idx [OF i False] show ?thesis using False by (auto simp add: f_def p)
    qed
  qed
  then obtain out where out: "mapM f (zip orders col) = Inr out" using mapM_total by blast
  have r: "renumber_COGNATE_SET orders col = Inr out"
    using out by (simp add: renumber_COGNATE_SET_def f_def)
  have lo: "length out = length col" using mapM_Inr [OF out] len by simp
  have each: "f (orders ! i, col ! i) = Inr (out ! i)" if "i < length col" for i
    using mapM_Inr [OF out] that len by simp
  have absent: "out ! i = Str []" if "i < length col" "label_absent (col ! i)" for i
    using each [OF that(1)] that(2) by (simp add: f_def)
  have present: "\<exists>n. out ! i = Num (of_nat n + 1) \<and> n < length (orders ! i) \<and>
                     orders ! i ! n = col ! i"
    if "i < length col" "\<not> label_absent (col ! i)" for i
  proof -
    from idx [OF that] obtain n where
      n: "py_index cell_eq (orders ! i) (col ! i) = Inr n"
      "n < length (orders ! i)" "orders ! i ! n = col ! i" by blast
    have "out ! i = Num (of_nat n + 1)"
      using each [OF that(1)] that(2) n(1) by (simp add: f_def)
    with n show ?thesis by blast
  qed
  have "if col ! i = Str [] \<or> col ! i = Str (ustr ''nan'') \<or> col ! i = NaN \<or> col ! i = Num 0
              then out ! i = Str []
              else (\<exists>n > 0. out ! i = Num (of_nat n) \<and> n \<le> length (orders ! i) \<and>
                            orders ! i ! (n - 1) = col ! i) \<and>
                   (\<forall>j < length col. orders ! j = orders ! i \<longrightarrow>
                      (out ! i = out ! j \<longleftrightarrow> col ! i = col ! j))"
    if i: "i < length col" for i
  proof (cases "label_absent (col ! i)")
    case True
    then show ?thesis using absent [OF i] by (simp add: label_absent_iff)
  next
    case False
    from present [OF i False] obtain n where
      n: "out ! i = Num (of_nat n + 1)" "n < length (orders ! i)" "orders ! i ! n = col ! i"
      by blast
    have pos: "\<exists>m > 0. out ! i = Num (of_nat m) \<and> m \<le> length (orders ! i) \<and>
                       orders ! i ! (m - 1) = col ! i"
      using n by (intro exI [of _ "Suc n"]) simp
    have same: "out ! i = out ! j \<longleftrightarrow> col ! i = col ! j"
      if j: "j < length col" and o: "orders ! j = orders ! i" for j
    proof (cases "label_absent (col ! j)")
      case True
      then show ?thesis using absent [OF j] n False by auto
    next
      case F: False
      from present [OF j F] obtain m where
        m: "out ! j = Num (of_nat m + 1)" "orders ! j ! m = col ! j" by blast
      show ?thesis
      proof
        assume "out ! i = out ! j"
        then have "n = m" using n m by simp
        then show "col ! i = col ! j" using n m o by simp
      next
        assume e: "col ! i = col ! j"
        have "f (orders ! j, col ! j) = f (orders ! i, col ! i)" using e o by simp
        then show "out ! i = out ! j" using each [OF i] each [OF j] by simp
      qed
    qed
    from pos same False show ?thesis by (simp add: label_absent_iff)
  qed
  with r lo show ?thesis by blast
qed

theorem renumber_COGNATE_SET_injective_witness:
  "\<exists>out. renumber_COGNATE_SET
            [[Str (ustr ''a''), NaN, Str (ustr ''nan''), Str (ustr ''b'')],
             [Str (ustr ''a''), NaN, Str (ustr ''nan''), Str (ustr ''b'')],
             [Str (ustr ''a''), NaN, Str (ustr ''nan''), Str (ustr ''b'')],
             [Str (ustr ''a''), NaN, Str (ustr ''nan''), Str (ustr ''b'')],
             [Str (ustr ''a''), NaN, Str (ustr ''nan''), Str (ustr ''b'')]]
            [Str (ustr ''b''), NaN, Str (ustr ''a''), Str (ustr ''b''), Str (ustr ''nan'')] = Inr out \<and>
          out = [Num 4, Str [], Num 1, Num 4, Str []] \<and>
          out ! 1 = Str [] \<and> (\<exists>n > 0. out ! 0 = Num (of_nat n)) \<and>
          out ! 0 = out ! 3 \<and> out ! 0 \<noteq> out ! 2"
proof -
  let ?order = "[Str (ustr ''a''), NaN, Str (ustr ''nan''), Str (ustr ''b'')]"
  let ?orders = "[?order, ?order, ?order, ?order, ?order]"
  let ?col = "[Str (ustr ''b''), NaN, Str (ustr ''a''), Str (ustr ''b''), Str (ustr ''nan'')]"
  have l: "length ?orders = length ?col" by simp
  have h: "\<forall>order \<in> set ?orders. \<forall>x \<in> set ?col. x \<noteq> NaN \<longrightarrow> x \<in> set order" by simp
  from renumber_COGNATE_SET_injective [OF l h] obtain out where
    o: "renumber_COGNATE_SET ?orders ?col = Inr out" and
    p: "\<And>i. i < length ?col \<Longrightarrow>
          (if ?col ! i = Str [] \<or> ?col ! i = Str (ustr ''nan'') \<or> ?col ! i = NaN \<or> ?col ! i = Num 0
           then out ! i = Str []
           else (\<exists>n > 0. out ! i = Num (of_nat n) \<and> n \<le> length (?orders ! i) \<and>
                         ?orders ! i ! (n - 1) = ?col ! i) \<and>
                (\<forall>j < length ?col. ?orders ! j = ?orders ! i \<longrightarrow>
                   (out ! i = out ! j \<longleftrightarrow> ?col ! i = ?col ! j)))"
    by blast
  have "out ! 1 = Str []" using p [of 1] by simp
  moreover have p0: "(\<exists>n > 0. out ! 0 = Num (of_nat n) \<and> n \<le> length (?orders ! 0) \<and>
                         ?orders ! 0 ! (n - 1) = ?col ! 0) \<and>
                (\<forall>j < length ?col. ?orders ! j = ?orders ! 0 \<longrightarrow>
                   (out ! 0 = out ! j \<longleftrightarrow> ?col ! 0 = ?col ! j))"
    using p [of 0] by (simp add: ustr_def)
  moreover have "out ! 0 = out ! 3" using p0 by simp
  moreover have "out ! 0 \<noteq> out ! 2" using p0 by (simp add: ustr_def)
  moreover have "out = [Num 4, Str [], Num 1, Num 4, Str []]" using o renumber_example by simp
  ultimately show ?thesis using o by blast
qed

text \<open>
  C9, the claim as written, fails: the numeric label 0 is neither empty, missing nor
  \<open>nan\<close>, and \<open>not i\<close> sends it to the empty string. The column here is of integers,
  whose set is enumerated in the same order at every row.
\<close>

theorem renumber_zero_label:
  "renumber_COGNATE_SET [[Num 0, Num 7], [Num 0, Num 7], [Num 0, Num 7]] [Num 0, Num 7, Num 0] =
     Inr [Str [], Num 2, Str []]"
  by (simp add: renumber_COGNATE_SET_def label_absent_def isnull_def py_not_def ustr_def
      cell_eq_def)

text \<open>
  Where the enumeration differs between two rows, the integers need not agree: in a
  numeric column with a missing value the set holds a new NaN each time it is built, and
  the place of that NaN among the labels moves with its hash. Here the label 8 is numbered
  1 by its first row and 2 by its second.
\<close>

lemma renumber_enumeration_matters:
  "renumber_COGNATE_SET
     [[NaN, Num 8, Num 7], [Num 8, NaN, Num 7], [Num 8, NaN, Num 7], [NaN, Num 8, Num 7]]
     [NaN, Num 8, Num 7, Num 8] =
   Inr [Str [], Num 1, Num 3, Num 2]"
  by (simp add: renumber_COGNATE_SET_def label_absent_def isnull_def py_not_def ustr_def
      cell_eq_def)

section \<open>Claims about the cognate resolver\<close>

lemma representatives_reset:
  "reset_row num_str args row \<Longrightarrow> representatives num_str args cognates auto row = reset_pool cognates auto row"
  by (cases "automatic_matches auto row")
     (simp_all add: representatives_def reset_pool_def automatic_matches_def iloc0_def
        with_COGNATE_SET_def)

lemma representative_pool:
  "representative num_str args cognates auto row =
     pool_representative (representatives num_str args cognates auto row) row"
  by (cases "representatives num_str args cognates auto row")
     (simp_all add: representative_def pool_representative_def iloc0_def)

lemma resolve_step_column:
  "LONG_COGID_column (resolve_step num_str args cognates auto (i, row) st) =
     (LONG_COGID_column st)[i := Some (triple_of (representative num_str args cognates auto row))]"
  by (simp add: resolve_step_def Let_def)

lemma resolve_step_pairs:
  "pairs (resolve_step num_str args cognates auto (i, row) st) =
     pairs st \<union> {p. p = (CONCEPT row, CONCEPT (representative num_str args cognates auto row)) \<and>
                    cell_ne (CONCEPT row) (CONCEPT (representative num_str args cognates auto row))}"
  by (auto simp add: resolve_step_def Let_def)

lemma resolve_step_printed:
  "\<exists>new. printed (resolve_step num_str args cognates auto (i, row) st) = printed st @ new \<and>
     (reset_row num_str args row \<longrightarrow>
        Grouping (triple_of row) (map printed_columns (representatives num_str args cognates auto row)) \<in> set new) \<and>
     (representatives num_str args cognates auto row = [] \<longrightarrow> Ungrounded (triple_of row) \<in> set new)"
  by (simp add: resolve_step_def Let_def iloc0_def)

lemma fold_column_length:
  "length (LONG_COGID_column (fold (resolve_step num_str args cognates auto) irs st)) =
     length (LONG_COGID_column st)"
  by (induction irs arbitrary: st) (simp_all add: resolve_step_def Let_def)

lemma fold_column_other:
  "i \<notin> fst ` set irs \<Longrightarrow>
   LONG_COGID_column (fold (resolve_step num_str args cognates auto) irs st) ! i = LONG_COGID_column st ! i"
proof (induction irs arbitrary: st)
  case Nil
  show ?case by simp
next
  case (Cons ir irs)
  obtain j r where ir: "ir = (j, r)" by (cases ir)
  with Cons.prems have "j \<noteq> i" "i \<notin> fst ` set irs" by auto
  then show ?case using Cons.IH ir by (simp add: resolve_step_column)
qed

lemma fold_column_at:
  "distinct (map fst irs) \<Longrightarrow> (i, row) \<in> set irs \<Longrightarrow> i < length (LONG_COGID_column st) \<Longrightarrow>
   LONG_COGID_column (fold (resolve_step num_str args cognates auto) irs st) ! i =
     Some (triple_of (representative num_str args cognates auto row))"
proof (induction irs arbitrary: st)
  case Nil
  then show ?case by simp
next
  case (Cons ir irs)
  obtain j r where ir: "ir = (j, r)" by (cases ir)
  show ?case
  proof (cases "(i, row) = ir")
    case True
    then have "i \<notin> fst ` set irs" using Cons.prems(1) ir by (auto simp add: image_iff)
    then show ?thesis
      using True Cons.prems(3) ir
      by (simp add: fold_column_other resolve_step_column)
  next
    case False
    then have "(i, row) \<in> set irs" using Cons.prems(2) by simp
    moreover have "distinct (map fst irs)" using Cons.prems(1) by simp
    moreover have "i < length (LONG_COGID_column (resolve_step num_str args cognates auto ir st))"
      using Cons.prems(3) ir by (simp add: resolve_step_column)
    ultimately show ?thesis using Cons.IH by simp
  qed
qed

lemma fold_pairs:
  "pairs (fold (resolve_step num_str args cognates auto) irs st) =
     pairs st \<union> {(CONCEPT row, CONCEPT (representative num_str args cognates auto row)) | row.
                    row \<in> snd ` set irs \<and>
                    cell_ne (CONCEPT row) (CONCEPT (representative num_str args cognates auto row))}"
proof (induction irs arbitrary: st)
  case Nil
  show ?case by simp
next
  case (Cons ir irs)
  obtain j r where ir: "ir = (j, r)" by (cases ir)
  show ?case unfolding ir by (simp add: Cons.IH resolve_step_pairs) blast
qed

lemma fold_printed_mono:
  "set (printed st) \<subseteq> set (printed (fold (resolve_step num_str args cognates auto) irs st))"
proof (induction irs arbitrary: st)
  case Nil
  show ?case by simp
next
  case (Cons ir irs)
  obtain j r where ir: "ir = (j, r)" by (cases ir)
  from resolve_step_printed [of num_str args cognates auto j r st] 
  have "set (printed st) \<subseteq> set (printed (resolve_step num_str args cognates auto ir st))"
    using ir by auto
  then show ?case using Cons.IH [of "resolve_step num_str args cognates auto ir st"] by auto
qed

lemma fold_printed_row:
  assumes "(i, row) \<in> set irs"
  shows "(reset_row num_str args row \<longrightarrow>
        Grouping (triple_of row) (map printed_columns (representatives num_str args cognates auto row))
          \<in> set (printed (fold (resolve_step num_str args cognates auto) irs st))) \<and>
     (representatives num_str args cognates auto row = [] \<longrightarrow>
        Ungrounded (triple_of row) \<in> set (printed (fold (resolve_step num_str args cognates auto) irs st)))"
  using assms
proof (induction irs arbitrary: st)
  case Nil
  then show ?case by simp
next
  case (Cons ir irs)
  show ?case
  proof (cases "(i, row) = ir")
    case True
    from resolve_step_printed [of num_str args cognates auto i row st] obtain new where
      new: "printed (resolve_step num_str args cognates auto (i, row) st) = printed st @ new"
      "reset_row num_str args row \<longrightarrow>
        Grouping (triple_of row) (map printed_columns (representatives num_str args cognates auto row)) \<in> set new"
      "representatives num_str args cognates auto row = [] \<longrightarrow> Ungrounded (triple_of row) \<in> set new"
      by blast
    have "set new \<subseteq> set (printed (fold (resolve_step num_str args cognates auto) (ir # irs) st))"
      using fold_printed_mono [of "resolve_step num_str args cognates auto (i, row) st" num_str args cognates auto irs]
        new(1) True by auto
    with new(2,3) show ?thesis by blast
  next
    case False
    then have "(i, row) \<in> set irs" using Cons.prems by simp
    from Cons.IH [OF this, of "resolve_step num_str args cognates auto ir st"] show ?thesis by simp
  qed
qed

lemma zip_upt_mem: "i < length xs \<Longrightarrow> (i, xs ! i) \<in> set (zip [0..<length xs] xs)"
  by (force simp add: set_zip)

lemmas resolver_defs =
  resolve_def resolve_step_def representative_def representatives_def reset_row_def
  with_COGNATE_SET_def iloc0_def cell_eq_def cell_ne_def cell_in_def py_not_def isnull_def
  py_str_def int_column_str_def triple_of_def printed_columns_def Let_def

lemma sorted_examples:
  "sorted_by_DOCULECT_ID automatic_table" "sorted_by_DOCULECT_ID manual_table"
  "sorted_by_DOCULECT_ID coded_table" "sorted_by_DOCULECT_ID exchanged_table"
  "sorted_by_DOCULECT_ID float_coded_table"
  by (simp_all add: sorted_by_DOCULECT_ID_def cell_le_def ustr_def automatic_table_def
      manual_table_def coded_table_def exchanged_table_def float_coded_table_def)

lemma digits_1: "digits 1 = [0x31]" by (simp add: digits.simps)

text \<open>
  C5. For every row marked reset, the resolver searches the automatic table for rows
  matching the row's doculect, transcription and concept; with a match the pool is all
  automatic rows sharing the matched row's automatic label, without one the pool is the
  working rows sharing the row's own label, and the grouping is printed in both cases; an
  empty pool makes the row its own representative and prints a second message; in every
  case LONG_COGID becomes the representative's triple of DOCULECT_ID, CONCEPT and IPA.
\<close>

theorem resolve_reset_rows:
  assumes i: "i < length cognates" and reset: "reset_row num_str args_reset (cognates ! i)"
  shows "let row = cognates ! i;
             pool = reset_pool cognates autocognates row;
             rep = pool_representative pool row;
             result = resolve num_str args_reset cognates autocognates
         in LONG_COGID_column result ! i = Some (DOCULECT_ID rep, CONCEPT rep, IPA rep) \<and>
            Grouping (DOCULECT_ID row, CONCEPT row, IPA row) (map printed_columns pool)
              \<in> set (printed result) \<and>
            (pool = [] \<longrightarrow>
               Ungrounded (DOCULECT_ID row, CONCEPT row, IPA row) \<in> set (printed result))"
proof -
  let ?irs = "zip [0..<length cognates] cognates"
  let ?st = "\<lparr> LONG_COGID_column = replicate (length cognates) None, pairs = {}, printed = [] \<rparr>"
  have m: "(i, cognates ! i) \<in> set ?irs" using i by (rule zip_upt_mem)
  have d: "distinct (map fst ?irs)" by simp
  have "LONG_COGID_column (fold (resolve_step num_str args_reset cognates autocognates) ?irs ?st) ! i =
     Some (triple_of (representative num_str args_reset cognates autocognates (cognates ! i)))"
    using fold_column_at [OF d m, of ?st] i by simp
  then show ?thesis
    using fold_printed_row [OF m, of num_str args_reset cognates autocognates ?st] reset
    by (simp add: resolve_def Let_def representative_pool representatives_reset triple_of_def)
qed

theorem resolve_reset_rows_witness:
  "sorted_by_DOCULECT_ID automatic_table \<and> sorted_by_DOCULECT_ID manual_table \<and>
   sorted_by_DOCULECT_ID float_coded_table \<and>
   reset_row float_column_str [] (manual_table ! 0) \<and>
   reset_row float_column_str [] (manual_table ! 1) \<and>
   reset_row float_column_str [ustr ''7.0''] (float_coded_table ! 1) \<and>
   \<not> reset_row float_column_str [ustr ''7''] (float_coded_table ! 1) \<and>
   LONG_COGID_column (resolve float_column_str [ustr ''7.0''] float_coded_table automatic_table) ! 1 =
     Some (Str (ustr ''abz''), Str (ustr ''hand''), Str (ustr ''lima'')) \<and>
   LONG_COGID_column (resolve float_column_str [] manual_table automatic_table) ! 0 =
     Some (Str (ustr ''abz''), Str (ustr ''hand''), Str (ustr ''lima'')) \<and>
   LONG_COGID_column (resolve float_column_str [] manual_table automatic_table) ! 1 =
     Some (Str (ustr ''tpg''), Str (ustr ''hand''), Str (ustr ''tang'')) \<and>
   Ungrounded (Str (ustr ''tpg''), Str (ustr ''hand''), Str (ustr ''tang''))
     \<in> set (printed (resolve float_column_str [] manual_table automatic_table))"
proof -
  have l: "0 < length manual_table" "1 < length manual_table" by (simp_all add: manual_table_def)
  have r0: "reset_row float_column_str [] (manual_table ! 0)" and r1: "reset_row float_column_str [] (manual_table ! 1)"
    by (simp_all add: manual_table_def reset_row_def isnull_def)
  have p0: "reset_pool manual_table automatic_table (manual_table ! 0) = automatic_table"
    by (simp add: reset_pool_def automatic_matches_def manual_table_def automatic_table_def
        cell_eq_def ustr_def)
  have p1: "reset_pool manual_table automatic_table (manual_table ! 1) = []"
    by (simp add: reset_pool_def automatic_matches_def manual_table_def automatic_table_def
        cell_eq_def ustr_def)
  from resolve_reset_rows [OF l(1) r0, of automatic_table]
  have "LONG_COGID_column (resolve float_column_str [] manual_table automatic_table) ! 0 =
     Some (Str (ustr ''abz''), Str (ustr ''hand''), Str (ustr ''lima''))"
    unfolding p0 Let_def by (simp add: pool_representative_def automatic_table_def)
  moreover from resolve_reset_rows [OF l(2) r1, of automatic_table]
  have "LONG_COGID_column (resolve float_column_str [] manual_table automatic_table) ! 1 =
     Some (Str (ustr ''tpg''), Str (ustr ''hand''), Str (ustr ''tang'')) \<and>
     Ungrounded (Str (ustr ''tpg''), Str (ustr ''hand''), Str (ustr ''tang''))
     \<in> set (printed (resolve float_column_str [] manual_table automatic_table))"
    unfolding p1 Let_def by (simp add: pool_representative_def manual_table_def)
  moreover have l7: "1 < length float_coded_table" by (simp add: float_coded_table_def)
  moreover have r7: "reset_row float_column_str [ustr ''7.0''] (float_coded_table ! 1)"
    by (simp add: float_coded_table_def reset_row_def isnull_def py_not_def py_str_def
        float_column_str_def int_column_str_def digits.simps ustr_def)
  moreover have n7: "\<not> reset_row float_column_str [ustr ''7''] (float_coded_table ! 1)"
    by (simp add: float_coded_table_def reset_row_def isnull_def py_not_def py_str_def
        float_column_str_def int_column_str_def digits.simps ustr_def cell_in_def)
  moreover have p7: "reset_pool float_coded_table automatic_table (float_coded_table ! 1) =
      automatic_table"
    by (simp add: reset_pool_def automatic_matches_def float_coded_table_def
        automatic_table_def cell_eq_def ustr_def)
  moreover from resolve_reset_rows [OF l7 r7, of automatic_table]
  have "LONG_COGID_column
          (resolve float_column_str [ustr ''7.0''] float_coded_table automatic_table) ! 1 =
        Some (Str (ustr ''abz''), Str (ustr ''hand''), Str (ustr ''lima''))"
    unfolding p7 Let_def by (simp add: pool_representative_def automatic_table_def)
  ultimately show ?thesis using r0 r1 sorted_examples by blast
qed

text \<open>
  C7 (as amended). Whenever a resolved row's concept differs from its representative's
  concept, the resolver records the ordered pair (row's concept, representative's concept)
  in \<open>pairs\<close>, and it records nothing else: the pairs (A, B) and (B, A) are different
  members, and which of them is recorded depends on which row is the representative.
\<close>

theorem resolve_pairs_ordered:
  "pairs (resolve num_str args_reset cognates autocognates) =
     {(CONCEPT row, CONCEPT (representative num_str args_reset cognates autocognates row)) | row.
        row \<in> set cognates \<and>
        cell_ne (CONCEPT row) (CONCEPT (representative num_str args_reset cognates autocognates row))}"
proof -
  have "snd ` set (zip [0..<length cognates] cognates) = set cognates"
    by (metis length_upt diff_zero zip_eq_conv map_snd_zip set_map)
  then show ?thesis by (simp add: resolve_def fold_pairs)
qed

theorem resolve_pairs_ordered_witness:
  "(Str (ustr ''five''), Str (ustr ''hand'')) \<in> pairs (resolve float_column_str [] manual_table automatic_table) \<and>
   (Str (ustr ''hand''), Str (ustr ''five'')) \<notin> pairs (resolve float_column_str [] manual_table automatic_table)"
proof -
  have rep: "map (representative float_column_str [] manual_table automatic_table) manual_table =
      [automatic_table ! 0, manual_table ! 1]"
    by (simp add: representative_def representatives_def reset_row_def isnull_def iloc0_def
        with_COGNATE_SET_def cell_eq_def manual_table_def automatic_table_def ustr_def)
  then have r: "representative float_column_str [] manual_table automatic_table (manual_table ! 0) = automatic_table ! 0"
    "representative float_column_str [] manual_table automatic_table (manual_table ! 1) = manual_table ! 1"
    by (simp_all add: manual_table_def)
  have s: "set manual_table = {manual_table ! 0, manual_table ! 1}"
    by (simp add: manual_table_def)
  have c: "CONCEPT (manual_table ! 0) = Str (ustr ''five'')"
    "CONCEPT (manual_table ! 1) = Str (ustr ''hand'')"
    "CONCEPT (automatic_table ! 0) = Str (ustr ''hand'')"
    by (simp_all add: manual_table_def automatic_table_def)
  have ne: "ustr ''five'' \<noteq> ustr ''hand''" by (simp add: ustr_def)
  have "(Str (ustr ''five''), Str (ustr ''hand'')) \<in> pairs (resolve float_column_str [] manual_table automatic_table)"
    unfolding resolve_pairs_ordered s
    by (rule CollectI, rule exI [of _ "manual_table ! 0"])
       (simp add: r c cell_ne_def cell_eq_def ne)
  moreover have "(Str (ustr ''hand''), Str (ustr ''five'')) \<notin> pairs (resolve float_column_str [] manual_table automatic_table)"
  proof
    assume "(Str (ustr ''hand''), Str (ustr ''five'')) \<in> pairs (resolve float_column_str [] manual_table automatic_table)"
    then obtain row where row: "row = manual_table ! 0 \<or> row = manual_table ! 1"
      and eq: "(Str (ustr ''hand''), Str (ustr ''five'')) =
         (CONCEPT row, CONCEPT (representative float_column_str [] manual_table automatic_table row))"
      unfolding resolve_pairs_ordered s by auto
    from eq have e1: "CONCEPT row = Str (ustr ''hand'')"
      and e2: "CONCEPT (representative float_column_str [] manual_table automatic_table row) = Str (ustr ''five'')"
      by simp_all
    from row show False
    proof
      assume "row = manual_table ! 0"
      with e1 c(1) ne show False by simp
    next
      assume "row = manual_table ! 1"
      with e2 r(2) c(2) ne show False by simp
    qed
  qed
  ultimately show ?thesis by blast
qed

text \<open>
  C7, the claim as written, fails. Both tables are sorted by DOCULECT_ID, as the loop
  meets them. Where \<open>hand\<close> is the concept of the first row, the set holds (five, hand)
  and not (hand, five); where the two concepts are exchanged, it holds (hand, five).
\<close>

theorem resolve_pairs_are_ordered:
  "sorted_by_DOCULECT_ID coded_table \<and> sorted_by_DOCULECT_ID exchanged_table \<and>
   pairs (resolve int_column_str [] coded_table coded_table) =
     {(Str (ustr ''five''), Str (ustr ''hand''))} \<and>
   (Str (ustr ''hand''), Str (ustr ''five'')) \<notin>
     pairs (resolve int_column_str [] coded_table coded_table) \<and>
   pairs (resolve int_column_str [] exchanged_table exchanged_table) =
     {(Str (ustr ''hand''), Str (ustr ''five''))}"
  by (simp add: sorted_examples)
     (simp add: resolver_defs coded_table_def exchanged_table_def ustr_def digits_1)

section \<open>Claims about the alignment validator\<close>

lemma mapM_map: "\<forall>x \<in> set xs. f x = Inr (g x) \<Longrightarrow> mapM f xs = Inr (map g xs)"
  by (induction xs) simp_all

lemma token_count_length: "\<forall>n. x \<noteq> Num n \<Longrightarrow> token_count x = Inr (alignment_length x)"
  by (cases x) (simp_all add: token_count_def alignment_length_def)

lemma fold_update_length: "length (fold (\<lambda>i c. c[i := h i]) idx col) = length col"
  by (induction idx arbitrary: col) simp_all

lemma fold_update_nth:
  "k < length col \<Longrightarrow>
   fold (\<lambda>i c. c[i := h i]) idx col ! k = (if k \<in> set idx then h k else col ! k)"
  by (induction idx arbitrary: col) (auto simp add: nth_list_update)

lemma set_group_index:
  "set (group_index rows g) = {i. i < length rows \<and> COGID (rows ! i) = Some g}"
  by (auto simp add: group_index_def)

lemma group_lengths:
  "set (map (\<lambda>i. alignment_length (ALIGNMENT (rows ! i))) (group_index rows g)) =
     alignment_lengths rows g"
  by (auto simp add: alignment_lengths_def set_group_index in_set_conv_nth image_iff)

lemma validate_group_effect:
  assumes len: "length col = length rows"
    and same: "\<forall>i < length rows. COGID (rows ! i) = Some g \<longrightarrow> col ! i = ALIGNMENT (rows ! i)"
    and typed: "\<forall>r \<in> set rows. \<forall>n. ALIGNMENT r \<noteq> Num n"
  shows "\<exists>col'. validate_group rows g col = Inr col' \<and> length col' = length rows \<and>
           (\<forall>i < length rows.
              col' ! i = (if COGID (rows ! i) = Some g \<and> card (alignment_lengths rows g) \<noteq> 1
                          then fallback (rows ! i) else col ! i))"
proof -
  let ?counts = "map (\<lambda>i. alignment_length (ALIGNMENT (rows ! i))) (group_index rows g)"
  have "\<forall>i \<in> set (group_index rows g).
          token_count (col ! i) = Inr (alignment_length (ALIGNMENT (rows ! i)))"
    using same typed by (auto simp add: set_group_index token_count_length)
  then have m: "mapM (\<lambda>i. token_count (col ! i)) (group_index rows g) = Inr ?counts"
    by (rule mapM_map)
  have c: "length (remdups ?counts) = card (alignment_lengths rows g)"
    unfolding group_lengths [symmetric] by (simp add: length_remdups_card_conv)
  show ?thesis
    using len
    by (simp add: validate_group_def m c fold_update_length fold_update_nth set_group_index
        del: map_map)
qed

lemma validate_loop_effect:
  assumes "distinct gs"
    and "length col = length rows"
    and "\<forall>i < length rows. \<forall>g \<in> set gs. COGID (rows ! i) = Some g \<longrightarrow> col ! i = ALIGNMENT (rows ! i)"
    and "\<forall>r \<in> set rows. \<forall>n. ALIGNMENT r \<noteq> Num n"
  shows "\<exists>out. validate_loop rows gs col = Inr out \<and> length out = length rows \<and>
           (\<forall>i < length rows.
              out ! i = (if \<exists>g \<in> set gs. COGID (rows ! i) = Some g \<and>
                                            card (alignment_lengths rows g) \<noteq> 1
                         then fallback (rows ! i) else col ! i))"
  using assms
proof (induction gs arbitrary: col)
  case Nil
  then show ?case by simp
next
  case (Cons g gs)
  have same: "\<forall>i < length rows. COGID (rows ! i) = Some g \<longrightarrow> col ! i = ALIGNMENT (rows ! i)"
    using Cons.prems(3) by simp
  from validate_group_effect [OF Cons.prems(2) same Cons.prems(4)] obtain col' where
    g: "validate_group rows g col = Inr col'" and l: "length col' = length rows" and
    e: "\<And>i. i < length rows \<Longrightarrow>
          col' ! i = (if COGID (rows ! i) = Some g \<and> card (alignment_lengths rows g) \<noteq> 1
                      then fallback (rows ! i) else col ! i)"
    by blast
  have keep: "\<forall>i < length rows. \<forall>g' \<in> set gs. COGID (rows ! i) = Some g' \<longrightarrow>
                col' ! i = ALIGNMENT (rows ! i)"
  proof (intro allI impI ballI)
    fix i g' assume i: "i < length rows" and g': "g' \<in> set gs" and c: "COGID (rows ! i) = Some g'"
    have "g' \<noteq> g" using g' Cons.prems(1) by auto
    then have "col' ! i = col ! i" using e [OF i] c by simp
    then show "col' ! i = ALIGNMENT (rows ! i)" using Cons.prems(3) i g' c by simp
  qed
  have d: "distinct gs" using Cons.prems(1) by simp
  from Cons.IH [OF d l keep Cons.prems(4)] obtain out where
    o: "validate_loop rows gs col' = Inr out" and lo: "length out = length rows" and
    eo: "\<And>i. i < length rows \<Longrightarrow>
          out ! i = (if \<exists>g \<in> set gs. COGID (rows ! i) = Some g \<and>
                                            card (alignment_lengths rows g) \<noteq> 1
                     then fallback (rows ! i) else col' ! i)"
    by blast
  have "out ! i = (if \<exists>g' \<in> set (g # gs). COGID (rows ! i) = Some g' \<and>
                                            card (alignment_lengths rows g') \<noteq> 1
                         then fallback (rows ! i) else col ! i)"
    if i: "i < length rows" for i
    using eo [OF i] e [OF i] by auto
  then show ?case using g o lo by simp
qed

lemma alignment_lengths_nonempty:
  "i < length rows \<Longrightarrow> COGID (rows ! i) = Some g \<Longrightarrow> card (alignment_lengths rows g) \<ge> 1"
proof -
  assume i: "i < length rows" and c: "COGID (rows ! i) = Some g"
  have "alignment_length (ALIGNMENT (rows ! i)) \<in> alignment_lengths rows g"
    using i c by (force simp add: alignment_lengths_def)
  moreover have "finite (alignment_lengths rows g)" by (simp add: alignment_lengths_def)
  ultimately show ?thesis by (metis card_gt_0_iff empty_iff less_eq_Suc_le One_nat_def)
qed

text \<open>
  C6. On a table whose ALIGNMENT cells are strings or missing, the validation returns, and
  for every COGID group: if the set of distinct alignment token counts over the group (a
  missing alignment counting as one distinct unknown value) has more than one element,
  every row's alignment in the group is replaced by that row's AUTO_ALIGNMENT value when
  the column is present, else by the single gap symbol \<open>-\<close>; otherwise the set has exactly
  one element and every row's alignment in the group is left unchanged.
\<close>

theorem validate_groups:
  assumes typed: "\<forall>r \<in> set rows. \<forall>n. ALIGNMENT r \<noteq> Num n"
  shows "\<exists>out. validate rows = Inr out \<and> length out = length rows \<and>
           (\<forall>i < length rows. \<forall>g. COGID (rows ! i) = Some g \<longrightarrow>
              (if card (alignment_lengths rows g) > 1
               then out ! i = (case AUTO_ALIGNMENT (rows ! i) of Some x \<Rightarrow> x | None \<Rightarrow> Str [0x2D])
               else card (alignment_lengths rows g) = 1 \<and> out ! i = ALIGNMENT (rows ! i)))"
proof -
  let ?gs = "sort (remdups (List.map_filter COGID rows))"
  have d: "distinct ?gs" by simp
  have s: "set ?gs = {g. \<exists>r \<in> set rows. COGID r = Some g}"
  proof (intro set_eqI iffI)
    fix g assume "g \<in> set ?gs"
    then show "g \<in> {g. \<exists>r \<in> set rows. COGID r = Some g}"
      by (auto simp add: List.map_filter_def)
  next
    fix g assume "g \<in> {g. \<exists>r \<in> set rows. COGID r = Some g}"
    then obtain r where "r \<in> set rows" "COGID r = Some g" by blast
    then have "g \<in> (\<lambda>x. the (COGID x)) ` {x \<in> set rows. COGID x \<noteq> None}"
      by (intro image_eqI [of _ _ r]) simp_all
    then show "g \<in> set ?gs" by (simp add: List.map_filter_def)
  qed
  have l: "length (map ALIGNMENT rows) = length rows" by simp
  have same: "\<forall>i < length rows. \<forall>g \<in> set ?gs. COGID (rows ! i) = Some g \<longrightarrow>
                map ALIGNMENT rows ! i = ALIGNMENT (rows ! i)" by simp
  from validate_loop_effect [OF d l same typed] obtain out where
    o: "validate rows = Inr out" and lo: "length out = length rows" and
    eo: "\<And>i. i < length rows \<Longrightarrow>
          out ! i = (if \<exists>g \<in> set ?gs. COGID (rows ! i) = Some g \<and>
                                            card (alignment_lengths rows g) \<noteq> 1
                     then fallback (rows ! i) else map ALIGNMENT rows ! i)"
    unfolding validate_def by blast
  have "if card (alignment_lengths rows g) > 1
               then out ! i = (case AUTO_ALIGNMENT (rows ! i) of Some x \<Rightarrow> x | None \<Rightarrow> Str [0x2D])
               else card (alignment_lengths rows g) = 1 \<and> out ! i = ALIGNMENT (rows ! i)"
    if i: "i < length rows" and c: "COGID (rows ! i) = Some g" for i g
  proof -
    have "g \<in> set ?gs" unfolding s using i c nth_mem by blast
    with eo [OF i] c have "out ! i = (if card (alignment_lengths rows g) \<noteq> 1
                     then fallback (rows ! i) else ALIGNMENT (rows ! i))"
      using i by auto
    with alignment_lengths_nonempty [OF i c] show ?thesis
      by (auto simp add: fallback_def)
  qed
  with o lo show ?thesis by blast
qed

lemma scenario_D_lengths:
  "card (alignment_lengths scenario_D 1) = 2" "card (alignment_lengths scenario_D 2) = 1"
  by (simp_all add: alignment_lengths_def alignment_length_def scenario_D_def split_def
      isspace_def flush_def ustr_def)

lemma no_fallback_lengths: "card (alignment_lengths no_fallback_table 5) = 2"
  by (simp add: alignment_lengths_def alignment_length_def no_fallback_table_def split_def
      isspace_def flush_def ustr_def)

theorem validate_groups_witness:
  "(\<exists>out. validate scenario_D = Inr out \<and> length out = 4 \<and>
          out ! 0 = Str (ustr ''t a m -'') \<and> out ! 2 = Str (ustr ''t a m a'') \<and>
          out ! 1 = Str (ustr ''l i m'') \<and> out ! 3 = Str (ustr ''r - m'')) \<and>
   (\<exists>out. validate no_fallback_table = Inr out \<and> out ! 0 = Str [0x2D] \<and> out ! 1 = Str [0x2D])"
proof -
  have t1: "\<forall>r \<in> set scenario_D. \<forall>n. ALIGNMENT r \<noteq> Num n" by (simp add: scenario_D_def)
  have t2: "\<forall>r \<in> set no_fallback_table. \<forall>n. ALIGNMENT r \<noteq> Num n"
    by (simp add: no_fallback_table_def)
  from validate_groups [OF t1] obtain out where
    o: "validate scenario_D = Inr out" and l: "length out = length scenario_D" and
    e: "\<And>i g. i < length scenario_D \<Longrightarrow> COGID (scenario_D ! i) = Some g \<Longrightarrow>
          (if card (alignment_lengths scenario_D g) > 1
           then out ! i = (case AUTO_ALIGNMENT (scenario_D ! i) of Some x \<Rightarrow> x | None \<Rightarrow> Str [0x2D])
           else card (alignment_lengths scenario_D g) = 1 \<and> out ! i = ALIGNMENT (scenario_D ! i))"
    by blast
  have "out ! 0 = Str (ustr ''t a m -'')"
    using e [of 0 1] by (simp add: scenario_D_lengths) (simp add: scenario_D_def)
  moreover have "out ! 2 = Str (ustr ''t a m a'')"
    using e [of 2 1] by (simp add: scenario_D_lengths) (simp add: scenario_D_def)
  moreover have "out ! 1 = Str (ustr ''l i m'')"
    using e [of 1 2] by (simp add: scenario_D_lengths) (simp add: scenario_D_def)
  moreover have "out ! 3 = Str (ustr ''r - m'')"
    using e [of 3 2] by (simp add: scenario_D_lengths) (simp add: scenario_D_def)
  moreover have "length out = 4" using l by (simp add: scenario_D_def)
  ultimately have a: "\<exists>out. validate scenario_D = Inr out \<and> length out = 4 \<and>
          out ! 0 = Str (ustr ''t a m -'') \<and> out ! 2 = Str (ustr ''t a m a'') \<and>
          out ! 1 = Str (ustr ''l i m'') \<and> out ! 3 = Str (ustr ''r - m'')"
    using o by blast
  from validate_groups [OF t2] obtain out' where
    o': "validate no_fallback_table = Inr out'" and
    e': "\<And>i g. i < length no_fallback_table \<Longrightarrow> COGID (no_fallback_table ! i) = Some g \<Longrightarrow>
          (if card (alignment_lengths no_fallback_table g) > 1
           then out' ! i = (case AUTO_ALIGNMENT (no_fallback_table ! i) of Some x \<Rightarrow> x | None \<Rightarrow> Str [0x2D])
           else card (alignment_lengths no_fallback_table g) = 1 \<and>
                out' ! i = ALIGNMENT (no_fallback_table ! i))"
    by blast
  have "out' ! 0 = Str [0x2D]"
    using e' [of 0 5] by (simp add: no_fallback_lengths) (simp add: no_fallback_table_def)
  moreover have "out' ! 1 = Str [0x2D]"
    using e' [of 1 5] by (simp add: no_fallback_lengths) (simp add: no_fallback_table_def)
  ultimately show ?thesis using a o' by blast
qed

end
